theory Spec2Isabelle
  imports Complex_Main "HOL-Library.Sublist" "HOL-Library.Product_Lexorder"
    "HOL-Library.Multiset"
begin

section \<open>Shared data model\<close>

text \<open>
  Python strings are modelled as \<open>string\<close>: one \<open>char\<close> per code point, for the code
  points 0..255. Python integers are unbounded, hence \<open>int\<close>. Every exception the code can
  raise is a value of \<open>error\<close>; a function that may raise returns \<open>error + 'a\<close>.
\<close>

datatype error =
    ValueError string
  | ValidationError
  | IndexError
  | RuntimeError

text \<open>
  \<open>DocumentChunk\<close> of \<open>app/models/schemas.py\<close>. The field \<open>text\<close> is named \<open>ctext\<close>
  here; \<open>chunk_id\<close> (a fresh random UUID per object) is left out.
\<close>

record DocumentChunk =
  document_id :: string
  chunk_index :: int
  ctext :: string
  start_char :: int
  end_char :: int

text \<open>
  The pydantic constructor: \<open>chunk_index \<ge> 0\<close>, \<open>text\<close> of length at least 1,
  \<open>start_char \<ge> 0\<close>, \<open>end_char \<ge> 1\<close> and the validator \<open>end_char > start_char\<close>;
  any failed constraint raises a validation error.
\<close>

definition DocumentChunk_init ::
  "string \<Rightarrow> int \<Rightarrow> string \<Rightarrow> int \<Rightarrow> int \<Rightarrow> error + DocumentChunk" where
  "DocumentChunk_init doc idx txt s e =
     (if 0 \<le> idx \<and> 1 \<le> length txt \<and> 0 \<le> s \<and> 1 \<le> e \<and> s < e
      then Inr \<lparr>document_id = doc, chunk_index = idx, ctext = txt,
                start_char = s, end_char = e\<rparr>
      else Inl ValidationError)"

subsection \<open>Character classes and string primitives of Python\<close>

text \<open>\<open>str.isspace\<close>, which is also the class \<open>\s\<close> of \<open>re\<close>, on the code points 0..255.\<close>

definition is_space :: "char \<Rightarrow> bool" where
  "is_space c = (let n = (of_char c :: int) in
     (9 \<le> n \<and> n \<le> 13) \<or> (28 \<le> n \<and> n \<le> 32) \<or> n = 133 \<or> n = 160)"

definition strip :: "string \<Rightarrow> string" where
  "strip s = rev (dropWhile is_space (rev (dropWhile is_space s)))"

text \<open>
  A slice \<open>xs[i:j]\<close>: a negative bound counts from the end, and both bounds are clamped
  to the list.
\<close>

definition py_bound :: "int \<Rightarrow> int \<Rightarrow> int" where
  "py_bound n i = (if i < 0 then max 0 (i + n) else min i n)"

definition py_slice :: "'a list \<Rightarrow> int \<Rightarrow> int \<Rightarrow> 'a list" where
  "py_slice xs i j =
     (let n = int (length xs); s = py_bound n i; e = py_bound n j
      in take (nat (e - s)) (drop (nat s) xs))"

section \<open>Chunker configurations\<close>

record SemanticChunker =
  chunk_size :: int
  overlap :: int

text \<open>\<open>SemanticChunker.__init__\<close>: rejects \<open>overlap \<ge> chunk_size\<close>.\<close>

definition SemanticChunker_init :: "int \<Rightarrow> int \<Rightarrow> error + SemanticChunker" where
  "SemanticChunker_init cs ov =
     (if ov \<ge> cs then Inl (ValueError ''Overlap must be smaller than chunk_size'')
      else Inr \<lparr>chunk_size = cs, overlap = ov\<rparr>)"

section \<open>FixedSizeChunker\<close>

record FixedSizeChunker =
  fs_chunk_size :: int
  fs_overlap :: int

text \<open>The constructor stores both parameters and checks nothing.\<close>

definition FixedSizeChunker_init :: "int \<Rightarrow> int \<Rightarrow> error + FixedSizeChunker" where
  "FixedSizeChunker_init cs ov = Inr \<lparr>fs_chunk_size = cs, fs_overlap = ov\<rparr>"

text \<open>
  The \<open>while start < len(text)\<close> loop. It may run forever, so it is a partial function:
  \<open>None\<close> is a run that never returns, \<open>Some (Inl e)\<close> a run that raises \<open>e\<close>.
\<close>

partial_function (option) fixed_loop ::
  "FixedSizeChunker \<Rightarrow> string \<Rightarrow> string \<Rightarrow> int \<Rightarrow> int \<Rightarrow> DocumentChunk list
     \<Rightarrow> (error + DocumentChunk list) option" where
  "fixed_loop self txt doc start idx chunks =
     (if start < int (length txt) then
        (case DocumentChunk_init doc idx
                (py_slice txt start (start + fs_chunk_size self))
                start (start + fs_chunk_size self) of
           Inl e \<Rightarrow> Some (Inl e)
         | Inr c \<Rightarrow>
             fixed_loop self txt doc (start + (fs_chunk_size self - fs_overlap self))
               (idx + 1) (chunks @ [c]))
      else Some (Inr chunks))"

declare fixed_loop.simps [code]

definition FixedSizeChunker_chunk_text ::
  "FixedSizeChunker \<Rightarrow> string \<Rightarrow> string \<Rightarrow> (error + DocumentChunk list) option" where
  "FixedSizeChunker_chunk_text self txt doc =
     (if txt = [] \<or> strip txt = [] then Some (Inl (ValueError ''Cannot chunk empty text''))
      else fixed_loop self (strip txt) doc 0 0 [])"



text \<open>
  Two predicates used by the statements below: a loop state from which the window never
  advances, and the property that every chunk spans exactly \<open>chunk_size\<close> offsets.
\<close>

definition stuck :: "FixedSizeChunker \<Rightarrow> string \<Rightarrow> int \<Rightarrow> int \<Rightarrow> bool" where
  "stuck self tx start idx \<longleftrightarrow>
     fs_overlap self = fs_chunk_size self \<and> 1 \<le> fs_chunk_size self
       \<and> 0 \<le> start \<and> start < int (length tx) \<and> 0 \<le> idx"

definition width_ok :: "FixedSizeChunker \<Rightarrow> DocumentChunk list \<Rightarrow> bool" where
  "width_ok self cs \<longleftrightarrow>
     list_all (\<lambda>c. end_char c - start_char c = fs_chunk_size self) cs"

section \<open>SemanticChunker\<close>

subsection \<open>Regular expressions of the chunker, as scanners\<close>

text \<open>
  The classes the patterns use, on the code points 0..255: \<open>\w\<close> (alphanumeric or
  underscore, as \<open>re\<close> decides it for \<open>str\<close> patterns), \<open>[A-Z]\<close>, \<open>[a-z]\<close>
  and the sentence-ending marks \<open>.\<close>, \<open>!\<close>, \<open>?\<close>.
\<close>

definition is_word :: "char \<Rightarrow> bool" where
  "is_word c = (let n = (of_char c :: int) in
     (48 \<le> n \<and> n \<le> 57) \<or> (65 \<le> n \<and> n \<le> 90) \<or> n = 95 \<or> (97 \<le> n \<and> n \<le> 122)
     \<or> n = 170 \<or> n = 178 \<or> n = 179 \<or> n = 181 \<or> n = 185 \<or> n = 186
     \<or> (188 \<le> n \<and> n \<le> 190) \<or> (192 \<le> n \<and> n \<le> 214)
     \<or> (216 \<le> n \<and> n \<le> 246) \<or> (248 \<le> n \<and> n \<le> 255))"

definition is_upper_AZ :: "char \<Rightarrow> bool" where
  "is_upper_AZ c = (let n = (of_char c :: int) in 65 \<le> n \<and> n \<le> 90)"

definition is_lower_az :: "char \<Rightarrow> bool" where
  "is_lower_az c = (let n = (of_char c :: int) in 97 \<le> n \<and> n \<le> 122)"

definition is_end_mark :: "char \<Rightarrow> bool" where
  "is_end_mark c = (c = CHR ''.'' \<or> c = CHR ''?'' \<or> c = CHR ''!'')"

text \<open>
  The three lookbehinds of \<open>sentence_pattern\<close>, each on \<open>seen\<close>, the text to
  the left of the position, reversed (so its head is the character next to the position):
  \<open>(?<!\w\.\w.)\<close>, where the last \<open>.\<close> is any character but a newline,
  \<open>(?<![A-Z][a-z]\.)\<close> and \<open>(?<=\.|\?|\!)\<close>. A lookbehind longer than the text to the
  left does not match.
\<close>

definition behind_dotted :: "string \<Rightarrow> bool" where
  "behind_dotted seen =
     (case seen of
        d # c # b # a # _ \<Rightarrow> is_word a \<and> b = CHR ''.'' \<and> is_word c \<and> d \<noteq> CHR 0x0A
      | _ \<Rightarrow> False)"

definition behind_title :: "string \<Rightarrow> bool" where
  "behind_title seen =
     (case seen of
        c # b # a # _ \<Rightarrow> is_upper_AZ a \<and> is_lower_az b \<and> c = CHR ''.''
      | _ \<Rightarrow> False)"

definition behind_end_mark :: "string \<Rightarrow> bool" where
  "behind_end_mark seen = (case seen of c # _ \<Rightarrow> is_end_mark c | [] \<Rightarrow> False)"

text \<open>The pattern matches the single character \<open>c\<close> that follows \<open>seen\<close>.\<close>

definition sentence_pattern_at :: "string \<Rightarrow> char \<Rightarrow> bool" where
  "sentence_pattern_at seen c =
     (\<not> behind_dotted seen \<and> \<not> behind_title seen \<and> behind_end_mark seen
      \<and> is_space c)"

text \<open>
  \<open>sentence_pattern.split(text)\<close>: the pieces between the matches, scanning left to
  right; \<open>cur\<close> is the current piece, reversed.
\<close>

fun split_scan :: "string \<Rightarrow> string \<Rightarrow> string \<Rightarrow> string list" where
  "split_scan seen cur [] = [rev cur]"
| "split_scan seen cur (c # cs) =
     (if sentence_pattern_at seen c then rev cur # split_scan (c # seen) [] cs
      else split_scan (c # seen) (c # cur) cs)"

definition sentence_pattern_split :: "string \<Rightarrow> string list" where
  "sentence_pattern_split tx = split_scan [] [] tx"

text \<open>\<open>re.sub(r'\s+', ' ', text)\<close>: every run of whitespace becomes one space.\<close>

function collapse_ws :: "string \<Rightarrow> string" where
  "collapse_ws [] = []"
| "collapse_ws (c # cs) =
     (if is_space c then CHR '' '' # collapse_ws (dropWhile is_space cs)
      else c # collapse_ws cs)"
  by pat_completeness auto
termination
  by (relation "measure length") (auto simp: length_dropWhile_le less_Suc_eq_le)

text \<open>
  \<open>re.sub(r'([.!?])([A-Z])', r'\1 \2', text)\<close>: a space goes between an end mark and a
  capital that follows it directly; the scan resumes after the capital.
\<close>

fun space_after_mark :: "string \<Rightarrow> string" where
  "space_after_mark (a # b # cs) =
     (if is_end_mark a \<and> is_upper_AZ b then a # CHR '' '' # b # space_after_mark cs
      else a # space_after_mark (b # cs))"
| "space_after_mark [a] = [a]"
| "space_after_mark [] = []"

definition normalize_text :: "string \<Rightarrow> string" where
  "normalize_text tx = strip (space_after_mark (collapse_ws tx))"

text \<open>\<open>s.split('. ')\<close>, with the current piece reversed in \<open>cur\<close>.\<close>

fun split_dot_space :: "string \<Rightarrow> string \<Rightarrow> string list" where
  "split_dot_space cur (a # b # cs) =
     (if a = CHR ''.'' \<and> b = CHR '' '' then rev cur # split_dot_space [] cs
      else split_dot_space (a # cur) (b # cs))"
| "split_dot_space cur [a] = [rev (a # cur)]"
| "split_dot_space cur [] = [rev cur]"

text \<open>\<open>' '.join(xs)\<close>.\<close>

fun join_sp :: "string list \<Rightarrow> string" where
  "join_sp [] = []"
| "join_sp [x] = x"
| "join_sp (x # y # ys) = x @ CHR '' '' # join_sp (y # ys)"

subsection \<open>The chunker\<close>

text \<open>
  \<open>_get_overlap_text\<close>: the loop over \<open>reversed(sentences)\<close> with its \<open>break\<close>;
  \<open>acc\<close> is \<open>overlap_sentences\<close> and \<open>len\<close> is \<open>overlap_length\<close>.
\<close>

fun overlap_scan :: "int \<Rightarrow> string list \<Rightarrow> string list \<Rightarrow> int \<Rightarrow> string list" where
  "overlap_scan ov [] acc len = acc"
| "overlap_scan ov (s # ss) acc len =
     (if len + (int (length s) + 1) > ov then acc
      else overlap_scan ov ss (s # acc) (len + (int (length s) + 1)))"

definition get_overlap_text :: "SemanticChunker \<Rightarrow> string list \<Rightarrow> string" where
  "get_overlap_text self sentences = join_sp (overlap_scan (overlap self) (rev sentences) [] 0)"

text \<open>
  The \<open>for sentence in sentences\<close> loop of \<open>chunk_text\<close> and the final flush after it.
  The loop variables are \<open>chunks\<close>, \<open>current_chunk\<close>, \<open>current_length\<close>,
  \<open>chunk_index\<close> and \<open>start_char\<close>.
\<close>

fun chunk_loop ::
  "SemanticChunker \<Rightarrow> string \<Rightarrow> string list \<Rightarrow> DocumentChunk list \<Rightarrow> string list
     \<Rightarrow> int \<Rightarrow> int \<Rightarrow> int \<Rightarrow> error + DocumentChunk list" where
  "chunk_loop self doc [] chunks cur curlen idx start =
     (if cur \<noteq> [] then
        (case DocumentChunk_init doc idx (join_sp cur) start
                (start + int (length (join_sp cur))) of
           Inl e \<Rightarrow> Inl e
         | Inr c \<Rightarrow> Inr (chunks @ [c]))
      else Inr chunks)"
| "chunk_loop self doc (s # ss) chunks cur curlen idx start =
     (if cur \<noteq> [] \<and> curlen + int (length s) > chunk_size self then
        (case DocumentChunk_init doc idx (join_sp cur) start
                (start + int (length (join_sp cur))) of
           Inl e \<Rightarrow> Inl e
         | Inr c \<Rightarrow>
             chunk_loop self doc ss (chunks @ [c])
               (filter (\<lambda>p. strip p \<noteq> []) (split_dot_space [] (get_overlap_text self cur))
                  @ [s])
               (int (length (get_overlap_text self cur)) + (int (length s) + 1))
               (idx + 1)
               (start + int (length (join_sp cur)) - int (length (get_overlap_text self cur))))
      else chunk_loop self doc ss chunks (cur @ [s]) (curlen + (int (length s) + 1)) idx start)"

text \<open>The sentences \<open>chunk_text\<close> iterates over, from the normalized text.\<close>

definition split_sentences :: "string \<Rightarrow> string list" where
  "split_sentences tx =
     (let sentences = map strip (filter (\<lambda>s. strip s \<noteq> []) (sentence_pattern_split tx))
      in if sentences = [] then [tx] else sentences)"

definition chunk_text :: "SemanticChunker \<Rightarrow> string \<Rightarrow> string \<Rightarrow> error + DocumentChunk list" where
  "chunk_text self tx doc =
     (if tx = [] \<or> strip tx = [] then Inl (ValueError ''Cannot chunk empty text'')
      else chunk_loop self doc (split_sentences (normalize_text tx)) [] [] 0 0 0)"

subsection \<open>Offsets of consecutive chunks\<close>

text \<open>
  \<open>back_ref k\<close> relates a chunk to the next one: the next chunk starts at least \<open>k\<close>
  offsets before the end of this one. With \<open>k = 0\<close> there is no forward gap, with
  \<open>k = 1\<close> the next chunk starts strictly inside this one.
\<close>

definition back_ref :: "int \<Rightarrow> DocumentChunk \<Rightarrow> DocumentChunk \<Rightarrow> bool" where
  "back_ref k a b \<longleftrightarrow> start_char b + k \<le> end_char a"

definition no_forward_gap :: "DocumentChunk list \<Rightarrow> bool" where
  "no_forward_gap chunks \<longleftrightarrow> successively (back_ref 0) chunks"

definition strict_back_reference :: "DocumentChunk list \<Rightarrow> bool" where
  "strict_back_reference chunks \<longleftrightarrow> successively (back_ref 1) chunks"

subsection \<open>Shape of a normalized text\<close>

text \<open>
  \<open>no_space_run\<close>: every whitespace character is a blank that no whitespace follows.
  \<open>single_spaced\<close>: moreover a blank is never the last character. \<open>trimmed\<close>: not
  empty, with no whitespace at either end.
\<close>

fun no_space_run :: "string \<Rightarrow> bool" where
  "no_space_run [] = True"
| "no_space_run (c # cs) =
     ((if is_space c then c = CHR '' '' \<and> (cs = [] \<or> \<not> is_space (hd cs)) else True)
      \<and> no_space_run cs)"

fun single_spaced :: "string \<Rightarrow> bool" where
  "single_spaced [] = True"
| "single_spaced (c # cs) =
     ((if is_space c then c = CHR '' '' \<and> cs \<noteq> [] \<and> \<not> is_space (hd cs) else True)
      \<and> single_spaced cs)"

definition trimmed :: "string \<Rightarrow> bool" where
  "trimmed p \<longleftrightarrow> p \<noteq> [] \<and> \<not> is_space (hd p) \<and> \<not> is_space (last p)"

text \<open>
  The state of the split scan on a single-spaced text: the piece being read starts with
  a character that is not whitespace, and a blank just read is followed by one.
\<close>

definition scan_ok :: "string \<Rightarrow> string \<Rightarrow> string \<Rightarrow> bool" where
  "scan_ok seen cur rest \<longleftrightarrow>
     single_spaced rest
     \<and> (if cur = [] then rest \<noteq> [] \<and> \<not> is_space (hd rest)
        else \<not> is_space (last cur) \<and> seen \<noteq> [] \<and> hd seen = hd cur
             \<and> (if is_space (hd cur) then rest \<noteq> [] \<and> \<not> is_space (hd rest) else True))"

subsection \<open>Reconstruction from chunks\<close>

text \<open>\<open>has_dot_space s\<close>: the separator \<open>. \<close> (a period, then a blank) occurs in \<open>s\<close>.\<close>

fun has_dot_space :: "string \<Rightarrow> bool" where
  "has_dot_space (a # b # cs) = ((a = CHR ''.'' \<and> b = CHR '' '') \<or> has_dot_space (b # cs))"
| "has_dot_space [a] = False"
| "has_dot_space [] = False"

text \<open>
  The non-overlapping portion of a chunk: its text without the prefix that the offsets
  attribute to the chunk before it, \<open>end_char\<close> of that chunk minus its own
  \<open>start_char\<close> characters. \<open>reconstruct\<close> concatenates the text of the first chunk and
  the non-overlapping portions of the others.
\<close>

definition non_overlapping :: "DocumentChunk \<Rightarrow> DocumentChunk \<Rightarrow> string" where
  "non_overlapping prev c = drop (nat (end_char prev - start_char c)) (ctext c)"

fun reconstruct_from :: "DocumentChunk \<Rightarrow> DocumentChunk list \<Rightarrow> string" where
  "reconstruct_from prev [] = []"
| "reconstruct_from prev (c # cs) = non_overlapping prev c @ reconstruct_from c cs"

definition reconstruct :: "DocumentChunk list \<Rightarrow> string" where
  "reconstruct chunks = (case chunks of [] \<Rightarrow> [] | c # cs \<Rightarrow> ctext c @ reconstruct_from c cs)"

text \<open>
  The overlap carried from a chunk to the next one, read off the chunks: the last
  \<open>end_char - start_char\<close> characters of the text of the earlier chunk (its
  \<open>end_char\<close>, the \<open>start_char\<close> of the later one). \<open>overlap_unsplit\<close>: the separator
  \<open>. \<close> does not occur in it, so that splitting it on \<open>. \<close> changes nothing.
\<close>

definition carried_overlap :: "DocumentChunk \<Rightarrow> DocumentChunk \<Rightarrow> string" where
  "carried_overlap prev c =
     drop (length (ctext prev) - nat (end_char prev - start_char c)) (ctext prev)"

definition overlap_unsplit :: "DocumentChunk \<Rightarrow> DocumentChunk \<Rightarrow> bool" where
  "overlap_unsplit prev c \<longleftrightarrow> \<not> has_dot_space (carried_overlap prev c)"

definition carries_unsplit :: "DocumentChunk list \<Rightarrow> bool" where
  "carries_unsplit chunks \<longleftrightarrow> successively overlap_unsplit chunks"

subsection \<open>Documents made of plain sentences\<close>

text \<open>
  \<open>sent x n\<close> is the sentence of \<open>n\<close> copies of the character \<open>x\<close> and an exclamation
  mark; \<open>dsent x n\<close> ends with a period instead. A \<open>plain\<close> sentence has at least three
  characters, no whitespace and no capital, a period at most as its last character, and
  ends with an end mark. \<open>gap_doc\<close> is a document of 1000 characters: four such
  sentences, of 249, 249, 250 and 249 characters, joined by single blanks.
\<close>

definition sent :: "char \<Rightarrow> nat \<Rightarrow> string" where
  "sent x n = replicate n x @ ''!''"

definition dsent :: "char \<Rightarrow> nat \<Rightarrow> string" where
  "dsent x n = replicate n x @ ''.''"

definition plain :: "string \<Rightarrow> bool" where
  "plain s \<longleftrightarrow>
     3 \<le> length s \<and> list_all (\<lambda>c. \<not> is_space c \<and> \<not> is_upper_AZ c) s
     \<and> list_all (\<lambda>c. c \<noteq> CHR ''.'') (butlast s) \<and> is_end_mark (last s)"

definition gap_doc :: string where
  "gap_doc = join_sp [sent CHR ''a'' 248, sent CHR ''b'' 248, sent CHR ''c'' 249,
                      sent CHR ''d'' 248]"

text \<open>
  \<open>carry_doc\<close> is a second document of 1000 characters: nine sentences of 99 characters
  and one of 100, each ending with a period. \<open>carry_chunks\<close> are the three chunks it is
  cut into with \<open>chunk_size = 512\<close> and \<open>overlap = 128\<close>; each carries the last sentence
  of the chunk before it.
\<close>

definition carry_doc :: string where
  "carry_doc = join_sp [dsent CHR ''a'' 98, dsent CHR ''a'' 98, dsent CHR ''a'' 98,
                        dsent CHR ''a'' 98, dsent CHR ''a'' 98, dsent CHR ''a'' 98,
                        dsent CHR ''a'' 98, dsent CHR ''a'' 98, dsent CHR ''a'' 98,
                        dsent CHR ''b'' 99]"

definition carry_chunks :: "DocumentChunk list" where
  "carry_chunks =
     [\<lparr>document_id = ''doc'', chunk_index = 0,
         ctext = join_sp [dsent CHR ''a'' 98, dsent CHR ''a'' 98, dsent CHR ''a'' 98,
                          dsent CHR ''a'' 98, dsent CHR ''a'' 98],
         start_char = 0, end_char = 499\<rparr>,
      \<lparr>document_id = ''doc'', chunk_index = 1,
         ctext = join_sp [dsent CHR ''a'' 98, dsent CHR ''a'' 98, dsent CHR ''a'' 98,
                          dsent CHR ''a'' 98, dsent CHR ''a'' 98],
         start_char = 400, end_char = 899\<rparr>,
      \<lparr>document_id = ''doc'', chunk_index = 2,
         ctext = join_sp [dsent CHR ''a'' 98, dsent CHR ''b'' 99],
         start_char = 800, end_char = 1000\<rparr>]"

section \<open>ExtractiveSummarizer\<close>

text \<open>
  Scores, similarities and embedding components are floating-point numbers in the source;
  here they are real numbers, so rounding and NaN are outside the model. An array of
  embeddings is the list of its rows.
\<close>

record ExtractiveSummarizer =
  max_sentences :: int
  diversity_threshold :: real

subsection \<open>Library operations\<close>

text \<open>\<open>xs[i]\<close> for an index that is not negative.\<close>

definition py_index :: "'a list \<Rightarrow> nat \<Rightarrow> error + 'a" where
  "py_index xs i = (if i < length xs then Inr (xs ! i) else Inl IndexError)"

text \<open>Applying a function that may raise to each element, stopping at the first error.\<close>

fun map_err :: "('a \<Rightarrow> error + 'b) \<Rightarrow> 'a list \<Rightarrow> error + 'b list" where
  "map_err f [] = Inr []"
| "map_err f (x # xs) =
     (case f x of
        Inl e \<Rightarrow> Inl e
      | Inr y \<Rightarrow> (case map_err f xs of Inl e \<Rightarrow> Inl e | Inr ys \<Rightarrow> Inr (y # ys)))"

text \<open>
  \<open>max(xs, key=key)\<close> and \<open>np.argmax\<close>: the first element with the greatest key. A later
  element replaces the current one only when its key is strictly greater.
\<close>

fun first_max :: "('a \<Rightarrow> real) \<Rightarrow> 'a \<Rightarrow> 'a list \<Rightarrow> 'a" where
  "first_max key best [] = best"
| "first_max key best (x # xs) =
     (if key x > key best then first_max key x xs else first_max key best xs)"

definition argmax :: "real list \<Rightarrow> error + nat" where
  "argmax scores =
     (if scores = [] then Inl (ValueError ''attempt to get argmax of an empty sequence'')
      else Inr (first_max (\<lambda>i. scores ! i) 0 [1..<length scores]))"

text \<open>\<open>xs.remove(x)\<close>: removes the first occurrence, and raises when there is none.\<close>

definition py_remove :: "nat \<Rightarrow> nat list \<Rightarrow> error + nat list" where
  "py_remove x xs =
     (if x \<in> set xs then Inr (remove1 x xs)
      else Inl (ValueError ''list.remove(x): x not in list''))"

text \<open>
  \<open>sklearn.metrics.pairwise.cosine_similarity\<close> of two rows: both are divided by their
  Euclidean norm (a norm of zero counts as one), and the results are multiplied
  componentwise and summed. Rows of different or of zero length are rejected.
\<close>

definition dot :: "real list \<Rightarrow> real list \<Rightarrow> real" where
  "dot x y = sum_list (map2 (*) x y)"

definition row_norm :: "real list \<Rightarrow> real" where
  "row_norm x = (if sqrt (dot x x) = 0 then 1 else sqrt (dot x x))"

definition cosine_similarity :: "real list \<Rightarrow> real list \<Rightarrow> error + real" where
  "cosine_similarity x y =
     (if x = [] \<or> length x \<noteq> length y then Inl (ValueError ''Incompatible dimension'')
      else Inr (dot x y / (row_norm x * row_norm y)))"

subsection \<open>Selection of diverse sentences\<close>

text \<open>
  \<open>max_similarity\<close> of the candidate \<open>idx\<close>: the greatest cosine similarity between
  \<open>embeddings[idx]\<close> and the rows \<open>embeddings[selected]\<close>.
\<close>

definition max_similarity :: "real list list \<Rightarrow> nat list \<Rightarrow> nat \<Rightarrow> error + real" where
  "max_similarity embeddings selected idx =
     (case map_err (py_index embeddings) selected of
        Inl e \<Rightarrow> Inl e
      | Inr selected_embeddings \<Rightarrow>
          (case py_index embeddings idx of
             Inl e \<Rightarrow> Inl e
           | Inr v \<Rightarrow>
               (case map_err (cosine_similarity v) selected_embeddings of
                  Inl e \<Rightarrow> Inl e
                | Inr [] \<Rightarrow> Inl (ValueError ''zero-size array'')
                | Inr (s # ss) \<Rightarrow> Inr (fold max ss s))))"

text \<open>
  The \<open>for idx in remaining\<close> loop of one round, with its variables \<open>best_score\<close> and
  \<open>best_idx\<close> (\<open>None\<close> until a candidate is taken).
\<close>

fun scan_candidates ::
  "ExtractiveSummarizer \<Rightarrow> real list \<Rightarrow> real list list \<Rightarrow> nat list \<Rightarrow> nat list
     \<Rightarrow> real \<Rightarrow> nat option \<Rightarrow> error + nat option" where
  "scan_candidates self scores embeddings selected [] best_score best_idx = Inr best_idx"
| "scan_candidates self scores embeddings selected (idx # rest) best_score best_idx =
     (case py_index scores idx of
        Inl e \<Rightarrow> Inl e
      | Inr relevance \<Rightarrow>
          (case max_similarity embeddings selected idx of
             Inl e \<Rightarrow> Inl e
           | Inr m \<Rightarrow>
               if m > diversity_threshold self
               then scan_candidates self scores embeddings selected rest best_score best_idx
               else if relevance - 0.3 * m > best_score
               then scan_candidates self scores embeddings selected rest
                      (relevance - 0.3 * m) (Some idx)
               else scan_candidates self scores embeddings selected rest
                      best_score best_idx))"

text \<open>
  The \<open>while len(selected) < max_sentences and remaining\<close> loop. Each round removes one
  index from \<open>remaining\<close>, which is the measure of termination.
\<close>

function select_loop ::
  "ExtractiveSummarizer \<Rightarrow> real list \<Rightarrow> real list list \<Rightarrow> int \<Rightarrow> nat list \<Rightarrow> nat list
     \<Rightarrow> error + nat list" where
  "select_loop self scores embeddings max_count selected remaining =
     (if int (length selected) < max_count \<and> remaining \<noteq> [] then
        (case scan_candidates self scores embeddings selected remaining (-1) None of
           Inl e \<Rightarrow> Inl e
         | Inr (Some best_idx) \<Rightarrow>
             (case py_remove best_idx remaining of
                Inl e \<Rightarrow> Inl e
              | Inr remaining' \<Rightarrow>
                  select_loop self scores embeddings max_count (selected @ [best_idx])
                    remaining')
         | Inr None \<Rightarrow>
             (case remaining of
                [] \<Rightarrow> Inr selected
              | r # rs \<Rightarrow>
                  (case py_remove (first_max (\<lambda>i. scores ! i) r rs) remaining of
                     Inl e \<Rightarrow> Inl e
                   | Inr remaining' \<Rightarrow>
                       select_loop self scores embeddings max_count
                         (selected @ [first_max (\<lambda>i. scores ! i) r rs]) remaining')))
      else Inr selected)"
  by pat_completeness auto
termination
  apply (relation "measure (\<lambda>(self, scores, embeddings, max_count, selected, remaining).
        length remaining)")
    apply (auto simp: py_remove_def length_remove1 simp del: scan_candidates.simps
      split: if_splits)
  apply (metis diff_Suc_less length_pos_if_in_set)
  done

declare select_loop.simps [simp del]

definition select_diverse_sentences ::
  "ExtractiveSummarizer \<Rightarrow> real list \<Rightarrow> real list list \<Rightarrow> int \<Rightarrow> error + nat list" where
  "select_diverse_sentences self scores embeddings max_count =
     (case argmax scores of
        Inl e \<Rightarrow> Inl e
      | Inr best_idx \<Rightarrow>
          (case py_remove best_idx [0..<length scores] of
             Inl e \<Rightarrow> Inl e
           | Inr remaining \<Rightarrow>
               select_loop self scores embeddings max_count [best_idx] remaining))"

text \<open>
  An array of \<open>N\<close> embeddings of one dimension \<open>D > 0\<close>, as a list of rows: every row has
  the length of the first one, and no row is empty.
\<close>

definition rows_ok :: "real list list \<Rightarrow> bool" where
  "rows_ok embeddings \<longleftrightarrow>
     list_all (\<lambda>e. e \<noteq> [] \<and> length e = length (hd embeddings)) embeddings"

subsection \<open>The embedding provider\<close>

text \<open>
  \<open>encode\<close> is the sentence-transformer model, outside the repository: it returns one row
  per text or fails. \<open>embed_batch\<close> and \<open>embed_text\<close> are the methods of
  \<open>EmbeddingGenerator\<close> around it.
\<close>

type_synonym encoder = "string list \<Rightarrow> error + real list list"

definition embed_batch :: "encoder \<Rightarrow> string list \<Rightarrow> error + real list list" where
  "embed_batch encode texts =
     (if texts = [] then Inl (ValueError ''Cannot embed empty text list'')
      else if list_ex (\<lambda>t. t = [] \<or> strip t = []) texts
      then Inl (ValueError ''Text list contains empty strings'')
      else (case encode texts of Inl e \<Rightarrow> Inl RuntimeError | Inr embeddings \<Rightarrow> Inr embeddings))"

definition embed_text :: "encoder \<Rightarrow> string \<Rightarrow> error + real list" where
  "embed_text encode tx =
     (if tx = [] \<or> strip tx = [] then Inl (ValueError ''Cannot embed empty text'')
      else (case embed_batch encode [tx] of
              Inl e \<Rightarrow> Inl e
            | Inr embeddings \<Rightarrow> py_index embeddings 0))"

text \<open>The calls \<open>summarize\<close> makes to the provider, in order.\<close>

datatype provider_call = EmbedText string | EmbedBatch "string list"

subsection \<open>Summaries\<close>

text \<open>An entry of \<open>sentences_with_source\<close>.\<close>

record candidate =
  cand_text :: string
  chunk_idx :: nat
  sent_idx :: nat

definition extract_sentences :: "string \<Rightarrow> string list" where
  "extract_sentences tx = map strip (filter (\<lambda>s. strip s \<noteq> []) (sentence_pattern_split tx))"

text \<open>The candidates of one retrieved text: its sentences of more than 20 characters.\<close>

definition chunk_candidates :: "nat \<Rightarrow> string \<Rightarrow> candidate list" where
  "chunk_candidates ci tx =
     map (\<lambda>(si, sentence). \<lparr>cand_text = sentence, chunk_idx = ci, sent_idx = si\<rparr>)
       (filter (\<lambda>(si, sentence). length (strip sentence) > 20)
          (enumerate 0 (extract_sentences tx)))"

definition sentences_with_source :: "string list \<Rightarrow> candidate list" where
  "sentences_with_source texts =
     concat (map (\<lambda>(ci, tx). chunk_candidates ci tx) (enumerate 0 texts))"

text \<open>
  The assembly: the selected indices sorted by \<open>(chunk_idx, sent_idx)\<close> with the stable
  sort, and the texts of the candidates joined by blanks. An index outside the candidate
  list raises.
\<close>

definition source_key :: "candidate list \<Rightarrow> nat \<Rightarrow> nat \<times> nat" where
  "source_key cands i = (chunk_idx (cands ! i), sent_idx (cands ! i))"

definition assemble :: "candidate list \<Rightarrow> nat list \<Rightarrow> error + string" where
  "assemble cands selected_indices =
     (case map_err (py_index cands) selected_indices of
        Inl e \<Rightarrow> Inl e
      | Inr _ \<Rightarrow>
          Inr (join_sp (map (\<lambda>i. cand_text (cands ! i))
                 (sort_key (source_key cands) selected_indices))))"

text \<open>
  \<open>summarize\<close>, with the calls made to the provider. \<open>override\<close> is the optional argument
  \<open>max_sentences\<close>: \<open>None\<close> and 0 both give the summarizer's own value. An exception of
  either embedding call is caught and gives the first candidates, unranked; one raised
  later propagates.
\<close>

definition summarize ::
  "ExtractiveSummarizer \<Rightarrow> encoder \<Rightarrow> string \<Rightarrow> string list \<Rightarrow> int option
     \<Rightarrow> provider_call list \<times> (error + string)" where
  "summarize self encode query retrieved_texts override =
     (let max_count = (case override of
                         None \<Rightarrow> max_sentences self
                       | Some n \<Rightarrow> if n = 0 then max_sentences self else n);
          cands = sentences_with_source retrieved_texts;
          sentence_texts = map cand_text cands;
          fallback = join_sp (map cand_text (py_slice cands 0 max_count))
      in if retrieved_texts = [] then ([], Inr ''No relevant content found.'')
         else if cands = [] then ([], Inr ''No suitable sentences found for summarization.'')
         else (case embed_text encode query of
                 Inl e \<Rightarrow> ([EmbedText query], Inr fallback)
               | Inr query_embedding \<Rightarrow>
                   (case embed_batch encode sentence_texts of
                      Inl e \<Rightarrow> ([EmbedText query, EmbedBatch sentence_texts], Inr fallback)
                    | Inr sentence_embeddings \<Rightarrow>
                        ([EmbedText query, EmbedBatch sentence_texts],
                         (case map_err (\<lambda>e. cosine_similarity e query_embedding)
                                 sentence_embeddings of
                            Inl e \<Rightarrow> Inl e
                          | Inr scores \<Rightarrow>
                              (case select_diverse_sentences self scores sentence_embeddings
                                      max_count of
                                 Inl e \<Rightarrow> Inl e
                               | Inr selected_indices \<Rightarrow>
                                   assemble cands selected_indices))))))"

text \<open>
  An encoder for examples: the sentence \<open>Alpha beta gamma delta one.\<close> gets the
  embedding \<open>(0, 1)\<close>, every other text \<open>(1, 0)\<close>.
\<close>

definition demo_encode :: encoder where
  "demo_encode texts =
     Inr (map (\<lambda>t. if t = ''Alpha beta gamma delta one.'' then [0, 1] else [1, 0]) texts)"

section \<open>Properties of FixedSizeChunker\<close>

lemma py_slice_nonempty:
  "0 \<le> i \<Longrightarrow> i < int (length xs) \<Longrightarrow> 1 \<le> k \<Longrightarrow> py_slice xs i (i + k) \<noteq> []"
  by (auto simp: py_slice_def py_bound_def Let_def min_def)

lemma DocumentChunk_init_Inr:
  "DocumentChunk_init doc idx tx s e = Inr c \<Longrightarrow>
     c = \<lparr>document_id = doc, chunk_index = idx, ctext = tx, start_char = s, end_char = e\<rparr>
     \<and> 0 \<le> idx \<and> 1 \<le> length tx \<and> 0 \<le> s \<and> s < e"
  by (auto simp: DocumentChunk_init_def split: if_splits)

text \<open>From a stuck state the loop has no result: every unfolding reaches the same state.\<close>

lemma fixed_loop_stuck:
  assumes "fixed_loop self tx doc start idx chunks = Some r"
  shows "\<not> stuck self tx start idx"
proof (rule fixed_loop.raw_induct
    [where P = "\<lambda>self tx doc start idx chunks r. \<not> stuck self tx start idx", OF _ assms])
  fix f :: "FixedSizeChunker \<Rightarrow> string \<Rightarrow> string \<Rightarrow> int \<Rightarrow> int \<Rightarrow> DocumentChunk list
     \<Rightarrow> (error + DocumentChunk list) option"
  fix self tx doc start idx chunks r
  assume IH: "\<And>self tx doc start idx chunks y.
     f self tx doc start idx chunks = Some y \<Longrightarrow> \<not> stuck self tx start idx"
  assume step: "(if start < int (length tx) then
        (case DocumentChunk_init doc idx
                (py_slice tx start (start + fs_chunk_size self))
                start (start + fs_chunk_size self) of
           Inl e \<Rightarrow> Some (Inl e)
         | Inr c \<Rightarrow>
             f self tx doc (start + (fs_chunk_size self - fs_overlap self))
               (idx + 1) (chunks @ [c]))
      else Some (Inr chunks)) = Some r"
  show "\<not> stuck self tx start idx"
  proof
    assume c: "stuck self tx start idx"
    then have len: "py_slice tx start (start + fs_chunk_size self) \<noteq> []"
      by (intro py_slice_nonempty) (simp_all add: stuck_def)
    obtain ch where ch: "DocumentChunk_init doc idx
                (py_slice tx start (start + fs_chunk_size self))
                start (start + fs_chunk_size self) = Inr ch"
      using c len by (auto simp: DocumentChunk_init_def stuck_def Suc_le_eq)
    from step c ch
    have "f self tx doc start (idx + 1) (chunks @ [ch]) = Some r"
      by (simp add: stuck_def)
    from IH[OF this] c show False by (simp add: stuck_def)
  qed
qed

lemma fixed_loop_width:
  assumes "fixed_loop self tx doc start idx chunks = Some r"
  shows "\<forall>res. r = Inr res \<longrightarrow> width_ok self chunks \<longrightarrow> width_ok self res"
proof (rule fixed_loop.raw_induct
    [where P = "\<lambda>self tx doc start idx chunks r.
        \<forall>res. r = Inr res \<longrightarrow> width_ok self chunks \<longrightarrow> width_ok self res", OF _ assms])
  fix f :: "FixedSizeChunker \<Rightarrow> string \<Rightarrow> string \<Rightarrow> int \<Rightarrow> int \<Rightarrow> DocumentChunk list
     \<Rightarrow> (error + DocumentChunk list) option"
  fix self tx doc start idx chunks r
  assume IH: "\<And>self tx doc start idx chunks y.
     f self tx doc start idx chunks = Some y \<Longrightarrow>
       \<forall>res. y = Inr res \<longrightarrow> width_ok self chunks \<longrightarrow> width_ok self res"
  assume step: "(if start < int (length tx) then
        (case DocumentChunk_init doc idx
                (py_slice tx start (start + fs_chunk_size self))
                start (start + fs_chunk_size self) of
           Inl e \<Rightarrow> Some (Inl e)
         | Inr c \<Rightarrow>
             f self tx doc (start + (fs_chunk_size self - fs_overlap self))
               (idx + 1) (chunks @ [c]))
      else Some (Inr chunks)) = Some r"
  show "\<forall>res. r = Inr res \<longrightarrow> width_ok self chunks \<longrightarrow> width_ok self res"
  proof (cases "start < int (length tx)")
    case False
    with step show ?thesis by auto
  next
    case True
    show ?thesis
    proof (cases "DocumentChunk_init doc idx
                (py_slice tx start (start + fs_chunk_size self))
                start (start + fs_chunk_size self)")
      case (Inl e)
      with True step show ?thesis by auto
    next
      case (Inr ch)
      with True step
      have "f self tx doc (start + (fs_chunk_size self - fs_overlap self)) (idx + 1)
              (chunks @ [ch]) = Some r"
        by simp
      from IH[OF this] DocumentChunk_init_Inr[OF Inr] show ?thesis
        by (auto simp: width_ok_def)
    qed
  qed
qed

text \<open>
  With \<open>overlap < chunk_size\<close> the start offset grows by a positive step, so the loop
  returns (a chunk list or a validation error) for every text.
\<close>

lemma fixed_loop_returns:
  assumes "fs_overlap self < fs_chunk_size self"
  shows "\<exists>r. fixed_loop self tx doc start idx chunks = Some r"
proof (induction "nat (int (length tx) - start)" arbitrary: start idx chunks rule: less_induct)
  case less
  show ?case
  proof (cases "start < int (length tx)")
    case False
    then show ?thesis by (subst fixed_loop.simps) simp
  next
    case True
    show ?thesis
    proof (cases "DocumentChunk_init doc idx
                (py_slice tx start (start + fs_chunk_size self))
                start (start + fs_chunk_size self)")
      case (Inl e)
      with True show ?thesis by (subst fixed_loop.simps) simp
    next
      case (Inr ch)
      have "nat (int (length tx) - (start + (fs_chunk_size self - fs_overlap self)))
              < nat (int (length tx) - start)"
        using assms True by linarith
      from less[OF this] obtain r where
        "fixed_loop self tx doc (start + (fs_chunk_size self - fs_overlap self)) (idx + 1)
           (chunks @ [ch]) = Some r"
        by blast
      with True Inr show ?thesis by (subst fixed_loop.simps) simp
    qed
  qed
qed

lemma fixed_example:
  "FixedSizeChunker_chunk_text \<lparr>fs_chunk_size = 4, fs_overlap = 1\<rparr> ''abcdef'' ''doc'' =
     Some (Inr [\<lparr>document_id = ''doc'', chunk_index = 0, ctext = ''abcd'',
                  start_char = 0, end_char = 4\<rparr>,
                \<lparr>document_id = ''doc'', chunk_index = 1, ctext = ''def'',
                  start_char = 3, end_char = 7\<rparr>])"
  by code_simp

text \<open>
  C2. Both chunker constructors are to reject \<open>overlap \<ge> chunk_size\<close> with a
  \<open>ValueError\<close>. \<open>SemanticChunker\<close> does; \<open>FixedSizeChunker\<close> has no check, and
  at \<open>chunk_size = overlap = 10\<close> it returns an instance where the sibling raises.
\<close>

theorem fixed_init_accepts_equal_overlap:
  "SemanticChunker_init 10 10 = Inl (ValueError ''Overlap must be smaller than chunk_size'')
   \<and> FixedSizeChunker_init 10 10 = Inr \<lparr>fs_chunk_size = 10, fs_overlap = 10\<rparr>"
  by (simp add: SemanticChunker_init_def FixedSizeChunker_init_def)

text \<open>
  C3. \<open>FixedSizeChunker.chunk_text\<close> is to terminate for every instance the constructor
  accepts and every text that is not blank. The instance with \<open>chunk_size = overlap = 10\<close>
  is accepted, and on the text \<open>a\<close> the start offset stays 0 for ever: the call has no
  result.
\<close>

theorem fixed_chunk_text_diverges:
  "FixedSizeChunker_init 10 10 = Inr \<lparr>fs_chunk_size = 10, fs_overlap = 10\<rparr>
   \<and> FixedSizeChunker_chunk_text \<lparr>fs_chunk_size = 10, fs_overlap = 10\<rparr> ''a'' ''doc'' = None"
proof -
  have s: "strip ''a'' = ''a''"
    by code_simp
  have st: "stuck \<lparr>fs_chunk_size = 10, fs_overlap = 10\<rparr> ''a'' 0 0"
    by (simp add: stuck_def)
  have "fixed_loop \<lparr>fs_chunk_size = 10, fs_overlap = 10\<rparr> ''a'' ''doc'' 0 0 [] = None"
  proof (cases "fixed_loop \<lparr>fs_chunk_size = 10, fs_overlap = 10\<rparr> ''a'' ''doc'' 0 0 []")
    case None
    then show ?thesis .
  next
    case (Some r)
    from fixed_loop_stuck[OF Some] st show ?thesis by simp
  qed
  then show ?thesis
    by (simp add: FixedSizeChunker_chunk_text_def FixedSizeChunker_init_def s)
qed

text \<open>
  C9. Every chunk that \<open>FixedSizeChunker.chunk_text\<close> returns has
  \<open>end_char - start_char = chunk_size\<close>, the last one included although its text may be
  shorter. So the last \<open>end_char\<close> can lie beyond the end of the trimmed text and differ
  from \<open>start_char\<close> plus the length of the chunk's text: with \<open>chunk_size = 4\<close>,
  \<open>overlap = 1\<close> and the text \<open>abcdef\<close> the last chunk is \<open>def\<close> at offsets 3 to 7.
\<close>

theorem fixed_chunk_width:
  assumes "FixedSizeChunker_chunk_text self tx doc = Some (Inr chunks)"
  shows "list_all (\<lambda>c. end_char c - start_char c = fs_chunk_size self) chunks
    \<and> (\<exists>t cs. FixedSizeChunker_chunk_text \<lparr>fs_chunk_size = 4, fs_overlap = 1\<rparr> t ''doc''
                 = Some (Inr cs)
          \<and> cs \<noteq> []
          \<and> int (length (strip t)) < end_char (last cs)
          \<and> end_char (last cs) \<noteq> start_char (last cs) + int (length (ctext (last cs))))"
proof
  from assms have "fixed_loop self (strip tx) doc 0 0 [] = Some (Inr chunks)"
    by (simp add: FixedSizeChunker_chunk_text_def split: if_splits)
  from fixed_loop_width[OF this] have "width_ok self chunks"
    by (simp add: width_ok_def)
  then show "list_all (\<lambda>c. end_char c - start_char c = fs_chunk_size self) chunks"
    by (simp add: width_ok_def)
next
  have s: "strip ''abcdef'' = ''abcdef''"
    by code_simp
  show "\<exists>t cs. FixedSizeChunker_chunk_text \<lparr>fs_chunk_size = 4, fs_overlap = 1\<rparr> t ''doc''
                 = Some (Inr cs)
          \<and> cs \<noteq> []
          \<and> int (length (strip t)) < end_char (last cs)
          \<and> end_char (last cs) \<noteq> start_char (last cs) + int (length (ctext (last cs)))"
    by (rule exI[of _ "''abcdef''"], rule exI, rule conjI, rule fixed_example) (simp add: s)
qed

theorem fixed_chunk_width_witness:
  "FixedSizeChunker_chunk_text \<lparr>fs_chunk_size = 4, fs_overlap = 1\<rparr> ''abcdef'' ''doc'' =
     Some (Inr [\<lparr>document_id = ''doc'', chunk_index = 0, ctext = ''abcd'',
                  start_char = 0, end_char = 4\<rparr>,
                \<lparr>document_id = ''doc'', chunk_index = 1, ctext = ''def'',
                  start_char = 3, end_char = 7\<rparr>])
   \<and> list_all (\<lambda>c. end_char c - start_char c = 4)
        [\<lparr>document_id = ''doc'', chunk_index = 0, ctext = ''abcd'',
            start_char = 0, end_char = 4\<rparr>,
         \<lparr>document_id = ''doc'', chunk_index = 1, ctext = ''def'',
            start_char = 3, end_char = 7\<rparr>]"
  using fixed_chunk_width[OF fixed_example] fixed_example by simp

section \<open>Strings, normalization and the overlap carry\<close>

lemma dropWhile_nonspace:
  "(\<exists>c\<in>set (dropWhile P s). \<not> P c) \<longleftrightarrow> (\<exists>c\<in>set s. \<not> P c)"
  by (induction s) auto

lemma strip_nonempty_iff: "strip s \<noteq> [] \<longleftrightarrow> (\<exists>c\<in>set s. \<not> is_space c)"
  by (simp add: strip_def dropWhile_eq_Nil_conv dropWhile_nonspace)

lemma strip_Nil [simp]: "strip [] = []"
  by (simp add: strip_def)

lemma is_space_blank [simp]: "is_space CHR '' ''"
  by (simp add: is_space_def)

lemma collapse_ws_nonspace:
  "(\<exists>c\<in>set (collapse_ws s). \<not> is_space c) \<longleftrightarrow> (\<exists>c\<in>set s. \<not> is_space c)"
proof (induction s rule: collapse_ws.induct)
  case 1
  show ?case by simp
next
  case (2 c cs)
  show ?case
  proof (cases "is_space c")
    case True
    with 2 show ?thesis by (simp add: dropWhile_nonspace)
  next
    case False
    with 2 show ?thesis by simp
  qed
qed

lemma set_space_after_mark: "set s \<subseteq> set (space_after_mark s)"
  by (induction s rule: space_after_mark.induct) auto

lemma normalize_text_nonempty:
  assumes "strip tx \<noteq> []"
  shows "normalize_text tx \<noteq> []"
proof -
  from assms obtain c where "c \<in> set tx" "\<not> is_space c"
    by (auto simp: strip_nonempty_iff)
  then have "\<exists>c\<in>set (collapse_ws tx). \<not> is_space c"
    by (auto simp: collapse_ws_nonspace)
  then have "\<exists>c\<in>set (space_after_mark (collapse_ws tx)). \<not> is_space c"
    using set_space_after_mark by blast
  then show ?thesis
    by (simp add: normalize_text_def strip_nonempty_iff)
qed

lemma split_sentences_nonempty:
  assumes "t \<noteq> []"
  shows "split_sentences t \<noteq> [] \<and> (\<forall>s\<in>set (split_sentences t). s \<noteq> [])"
  using assms by (auto simp: split_sentences_def Let_def)

lemma join_sp_Cons: "ys \<noteq> [] \<Longrightarrow> join_sp (x # ys) = x @ CHR '' '' # join_sp ys"
  by (cases ys) auto

lemma join_sp_append:
  "join_sp (xs @ ys) =
     (if xs = [] then join_sp ys else if ys = [] then join_sp xs
      else join_sp xs @ CHR '' '' # join_sp ys)"
  by (induction xs rule: join_sp.induct) (auto simp: join_sp_Cons)

lemma overlap_scan_suffix: "suffix (overlap_scan ov rs acc len) (rev rs @ acc)"
proof (induction rs arbitrary: acc len)
  case Nil
  show ?case by simp
next
  case (Cons s ss)
  have "suffix (overlap_scan ov ss (s # acc) (len + (int (length s) + 1))) (rev ss @ s # acc)"
    by (rule Cons.IH)
  then show ?case
    by (auto simp: suffix_def)
qed

lemma suffix_join_sp: "suffix xs ys \<Longrightarrow> suffix (join_sp xs) (join_sp ys)"
  by (auto simp: suffix_def join_sp_append)

lemma get_overlap_text_suffix: "suffix (get_overlap_text self cur) (join_sp cur)"
  unfolding get_overlap_text_def
  using overlap_scan_suffix[of "overlap self" "rev cur" "[]" 0]
  by (auto intro: suffix_join_sp)

lemma get_overlap_text_length: "length (get_overlap_text self cur) \<le> length (join_sp cur)"
  using get_overlap_text_suffix by (rule suffix_length_le)

lemma join_sp_nonempty: "cur \<noteq> [] \<Longrightarrow> \<forall>p\<in>set cur. p \<noteq> [] \<Longrightarrow> join_sp cur \<noteq> []"
  by (induction cur rule: join_sp.induct) auto

section \<open>Chunk indices of SemanticChunker\<close>

lemma carried_pieces_nonempty:
  "\<forall>p\<in>set (filter (\<lambda>p. strip p \<noteq> []) ps). p \<noteq> []"
  by auto

lemma chunk_index_snoc:
  "map chunk_index chunks = map int [0..<length chunks] \<Longrightarrow>
     chunk_index c = int (length chunks) \<Longrightarrow>
     map chunk_index (chunks @ [c]) = map int [0..<length (chunks @ [c])]"
  by simp

lemma flush_ok:
  assumes "cur \<noteq> []" "\<forall>p\<in>set cur. p \<noteq> []" "0 \<le> start" "0 \<le> idx"
  shows "DocumentChunk_init doc idx (join_sp cur) start (start + int (length (join_sp cur)))
    = Inr \<lparr>document_id = doc, chunk_index = idx, ctext = join_sp cur,
            start_char = start, end_char = start + int (length (join_sp cur))\<rparr>"
proof -
  obtain n where "length (join_sp cur) = Suc n"
    using join_sp_nonempty[OF assms(1,2)] by (cases "join_sp cur") auto
  with assms(3,4) show ?thesis
    by (simp add: DocumentChunk_init_def)
qed

lemma chunk_loop_indices:
  assumes "\<forall>s\<in>set ss. s \<noteq> []" "\<forall>p\<in>set cur. p \<noteq> []" "0 \<le> start"
    and "idx = int (length chunks)"
    and "map chunk_index chunks = map int [0..<length chunks]"
    and "ss \<noteq> [] \<or> cur \<noteq> []"
  shows "\<exists>res. chunk_loop self doc ss chunks cur curlen idx start = Inr res \<and> res \<noteq> []
           \<and> map chunk_index res = map int [0..<length res]"
  using assms
proof (induction ss arbitrary: chunks cur curlen idx start)
  case Nil
  then have c: "cur \<noteq> []" by simp
  have "0 \<le> idx" using Nil.prems(4) by simp
  from flush_ok[OF c Nil.prems(2,3) this] c Nil.prems(4,5) show ?case
    by simp
next
  case (Cons s ss)
  show ?case
  proof (cases "cur \<noteq> [] \<and> curlen + int (length s) > chunk_size self")
    case False
    have "\<exists>res. chunk_loop self doc ss chunks (cur @ [s]) (curlen + (int (length s) + 1)) idx start
            = Inr res \<and> res \<noteq> [] \<and> map chunk_index res = map int [0..<length res]"
      using Cons.prems by (intro Cons.IH) auto
    with False show ?thesis by auto
  next
    case True
    let ?c = "\<lparr>document_id = doc, chunk_index = idx, ctext = join_sp cur,
            start_char = start, end_char = start + int (length (join_sp cur))\<rparr>"
    let ?ov = "get_overlap_text self cur"
    have fl: "DocumentChunk_init doc idx (join_sp cur) start (start + int (length (join_sp cur)))
       = Inr ?c"
      using True Cons.prems by (intro flush_ok) auto
    have st: "0 \<le> start + int (length (join_sp cur)) - int (length ?ov)"
      using get_overlap_text_length[of self cur] Cons.prems(3) by linarith
    have "\<exists>res. chunk_loop self doc ss (chunks @ [?c])
               (filter (\<lambda>p. strip p \<noteq> []) (split_dot_space [] ?ov) @ [s])
               (int (length ?ov) + (int (length s) + 1))
               (idx + 1)
               (start + int (length (join_sp cur)) - int (length ?ov))
            = Inr res \<and> res \<noteq> [] \<and> map chunk_index res = map int [0..<length res]"
      using Cons.prems st by (intro Cons.IH) auto
    with True fl show ?thesis by auto
  qed
qed

text \<open>
  C7. For every text that is not blank, \<open>SemanticChunker.chunk_text\<close> returns a list
  of at least one chunk (no constructor of a chunk fails), and the \<open>chunk_index\<close> values
  of the list are 0, 1, ..., N-1 in this order.
\<close>

theorem chunk_text_returns_indexed:
  assumes "strip tx \<noteq> []"
  shows "\<exists>chunks. chunk_text self tx doc = Inr chunks \<and> chunks \<noteq> []
            \<and> map chunk_index chunks = map int [0..<length chunks]"
proof -
  from assms have ne: "normalize_text tx \<noteq> []"
    by (rule normalize_text_nonempty)
  from assms have tx: "tx \<noteq> []" by auto
  have "\<exists>res. chunk_loop self doc (split_sentences (normalize_text tx)) [] [] 0 0 0 = Inr res
          \<and> res \<noteq> [] \<and> map chunk_index res = map int [0..<length res]"
    using split_sentences_nonempty[OF ne] by (intro chunk_loop_indices) auto
  with assms tx show ?thesis
    by (simp add: chunk_text_def)
qed

theorem chunk_text_returns_indexed_witness:
  "strip ''One. Two.'' \<noteq> []
   \<and> (\<exists>chunks. chunk_text \<lparr>chunk_size = 5, overlap = 2\<rparr> ''One. Two.'' ''doc'' = Inr chunks
          \<and> chunks \<noteq> [] \<and> map chunk_index chunks = map int [0..<length chunks])"
proof -
  have h: "strip ''One. Two.'' \<noteq> []"
    by code_simp
  from chunk_text_returns_indexed[OF h] h show ?thesis
    by blast
qed


section \<open>Offsets of consecutive chunks\<close>

lemma overlap_scan_keeps_acc: "suffix acc (overlap_scan ov rs acc len)"
proof (induction rs arbitrary: acc len)
  case Nil
  show ?case by simp
next
  case (Cons s ss)
  have "suffix (s # acc) (overlap_scan ov ss (s # acc) (len + (int (length s) + 1)))"
    by (rule Cons.IH)
  then have "suffix acc (overlap_scan ov ss (s # acc) (len + (int (length s) + 1)))"
    by (rule suffix_ConsD)
  then show ?case by simp
qed

lemma get_overlap_text_nonempty:
  assumes "cur \<noteq> []" "last cur \<noteq> []" "int (length (last cur)) < overlap self"
  shows "get_overlap_text self cur \<noteq> []"
proof -
  from assms(1) have r: "rev cur = last cur # rev (butlast cur)"
    by (cases cur rule: rev_cases) auto
  have "suffix [last cur]
          (overlap_scan (overlap self) (rev (butlast cur)) [last cur] (0 + (int (length (last cur)) + 1)))"
    by (rule overlap_scan_keeps_acc)
  then obtain zs where
    "overlap_scan (overlap self) (rev (butlast cur)) [last cur] (0 + (int (length (last cur)) + 1))
       = zs @ [last cur]"
    by (auto simp: suffix_def)
  with assms(3) have "overlap_scan (overlap self) (rev cur) [] 0 = zs @ [last cur]"
    by (simp add: r)
  with assms(2) show ?thesis
    by (simp add: get_overlap_text_def join_sp_append)
qed

lemma chunk_loop_back_ref:
  assumes "chunk_loop self doc ss chunks cur curlen idx start = Inr res"
    and "successively (back_ref k) chunks"
    and "chunks = [] \<or> start + k \<le> end_char (last chunks)"
    and "k = 0 \<or> (k = 1 \<and> (\<forall>s\<in>set ss. s \<noteq> [] \<and> int (length s) < overlap self)
                   \<and> (cur = [] \<or> (last cur \<noteq> [] \<and> int (length (last cur)) < overlap self)))"
  shows "successively (back_ref k) res"
  using assms
proof (induction ss arbitrary: chunks cur curlen idx start)
  case Nil
  show ?case
  proof (cases "cur = []")
    case True
    with Nil show ?thesis by simp
  next
    case False
    with Nil.prems(1) obtain c where
      c: "DocumentChunk_init doc idx (join_sp cur) start (start + int (length (join_sp cur))) = Inr c"
      and r: "res = chunks @ [c]"
      by (auto split: sum.splits)
    from DocumentChunk_init_Inr[OF c] have "start_char c = start" by simp
    with Nil.prems(2,3) r show ?thesis
      by (auto simp: successively_append_iff back_ref_def)
  qed
next
  case (Cons s ss)
  show ?case
  proof (cases "cur \<noteq> [] \<and> curlen + int (length s) > chunk_size self")
    case False
    with Cons.prems(1)
    have "chunk_loop self doc ss chunks (cur @ [s]) (curlen + (int (length s) + 1)) idx start = Inr res"
      by auto
    then show ?thesis
    proof (rule Cons.IH[OF _ Cons.prems(2,3)])
      show "k = 0 \<or> (k = 1 \<and> (\<forall>s\<in>set ss. s \<noteq> [] \<and> int (length s) < overlap self)
                   \<and> (cur @ [s] = [] \<or> (last (cur @ [s]) \<noteq> []
                          \<and> int (length (last (cur @ [s]))) < overlap self)))"
        using Cons.prems(4) by auto
    qed
  next
    case True
    let ?ov = "get_overlap_text self cur"
    from True Cons.prems(1) obtain c where
      c: "DocumentChunk_init doc idx (join_sp cur) start (start + int (length (join_sp cur))) = Inr c"
      and r: "chunk_loop self doc ss (chunks @ [c])
               (filter (\<lambda>p. strip p \<noteq> []) (split_dot_space [] ?ov) @ [s])
               (int (length ?ov) + (int (length s) + 1))
               (idx + 1)
               (start + int (length (join_sp cur)) - int (length ?ov)) = Inr res"
      by (auto split: sum.splits)
    from DocumentChunk_init_Inr[OF c]
    have sc: "start_char c = start" and ec: "end_char c = start + int (length (join_sp cur))"
      by simp_all
    have s1: "successively (back_ref k) (chunks @ [c])"
      using Cons.prems(2,3) sc by (auto simp: successively_append_iff back_ref_def)
    have "k \<le> int (length ?ov)"
    proof (cases "k = 0")
      case True
      then show ?thesis by simp
    next
      case False
      with Cons.prems(4) \<open>cur \<noteq> [] \<and> _\<close>
      have k: "k = 1" and l: "cur \<noteq> []" "last cur \<noteq> []" "int (length (last cur)) < overlap self"
        by auto
      from get_overlap_text_nonempty[OF l] k show ?thesis by (cases ?ov) auto
    qed
    then have s2: "chunks @ [c] = [] \<or>
        start + int (length (join_sp cur)) - int (length ?ov) + k \<le> end_char (last (chunks @ [c]))"
      using ec by simp
    show ?thesis
    proof (rule Cons.IH[OF r s1 s2])
      let ?cur' = "filter (\<lambda>p. strip p \<noteq> []) (split_dot_space [] ?ov) @ [s]"
      show "k = 0 \<or> (k = 1 \<and> (\<forall>s\<in>set ss. s \<noteq> [] \<and> int (length s) < overlap self)
                   \<and> (?cur' = [] \<or> (last ?cur' \<noteq> []
                          \<and> int (length (last ?cur')) < overlap self)))"
        using Cons.prems(4) by auto
    qed
  qed
qed

text \<open>
  C6, as stated: with \<open>overlap > 0\<close>, every chunk after the first starts strictly
  before the end of the chunk before it. This fails when the last sentence of a chunk does
  not fit the overlap window: nothing is carried, and the next chunk starts exactly at the
  end of the one before. Here \<open>chunk_size = 20\<close>, \<open>overlap = 5\<close> and two sentences of
  13 characters.
\<close>

theorem strict_back_reference_counterexample:
  "SemanticChunker_init 20 5 = Inr \<lparr>chunk_size = 20, overlap = 5\<rparr>
   \<and> 0 < overlap \<lparr>chunk_size = 20, overlap = 5\<rparr>
   \<and> chunk_text \<lparr>chunk_size = 20, overlap = 5\<rparr> ''aaaaaaaaaaaa! bbbbbbbbbbbb!'' ''doc''
       = Inr [\<lparr>document_id = ''doc'', chunk_index = 0, ctext = ''aaaaaaaaaaaa!'',
                 start_char = 0, end_char = 13\<rparr>,
              \<lparr>document_id = ''doc'', chunk_index = 1, ctext = ''bbbbbbbbbbbb!'',
                 start_char = 13, end_char = 26\<rparr>]
   \<and> \<not> strict_back_reference
          [\<lparr>document_id = ''doc'', chunk_index = 0, ctext = ''aaaaaaaaaaaa!'',
              start_char = 0, end_char = 13\<rparr>,
           \<lparr>document_id = ''doc'', chunk_index = 1, ctext = ''bbbbbbbbbbbb!'',
              start_char = 13, end_char = 26\<rparr>]"
proof -
  have "chunk_text \<lparr>chunk_size = 20, overlap = 5\<rparr> ''aaaaaaaaaaaa! bbbbbbbbbbbb!'' ''doc''
       = Inr [\<lparr>document_id = ''doc'', chunk_index = 0, ctext = ''aaaaaaaaaaaa!'',
                 start_char = 0, end_char = 13\<rparr>,
              \<lparr>document_id = ''doc'', chunk_index = 1, ctext = ''bbbbbbbbbbbb!'',
                 start_char = 13, end_char = 26\<rparr>]"
    by code_simp
  then show ?thesis
    by (simp add: SemanticChunker_init_def strict_back_reference_def back_ref_def)
qed

text \<open>
  C6, amended: for every instance and every text, each chunk after the first has
  \<open>start_char\<close> at most the \<open>end_char\<close> of the chunk before it (no forward gap); and it
  is strictly less when every sentence of the normalized text is shorter than
  \<open>overlap\<close>, so that each chunk carries at least the last sentence of the one before.
\<close>

theorem chunk_text_back_reference:
  assumes "chunk_text self tx doc = Inr chunks"
  shows "no_forward_gap chunks
    \<and> (list_all (\<lambda>s. int (length s) < overlap self) (split_sentences (normalize_text tx))
         \<longrightarrow> strict_back_reference chunks)"
proof -
  from assms have ne: "strip tx \<noteq> []"
    and loop: "chunk_loop self doc (split_sentences (normalize_text tx)) [] [] 0 0 0 = Inr chunks"
    by (auto simp: chunk_text_def split: if_splits)
  have "successively (back_ref 0) chunks"
    using loop by (rule chunk_loop_back_ref) simp_all
  moreover have "successively (back_ref 1) chunks"
    if short: "list_all (\<lambda>s. int (length s) < overlap self) (split_sentences (normalize_text tx))"
  proof (rule chunk_loop_back_ref[OF loop])
    show "successively (back_ref 1) []" by simp
    show "[] = [] \<or> 0 + 1 \<le> end_char (last [])" by simp
    show "1 = (0::int) \<or> (1 = (1::int)
            \<and> (\<forall>s\<in>set (split_sentences (normalize_text tx)).
                    s \<noteq> [] \<and> int (length s) < overlap self)
            \<and> ([] = [] \<or> (last [] \<noteq> [] \<and> int (length (last [])) < overlap self)))"
      using short split_sentences_nonempty[OF normalize_text_nonempty[OF ne]]
      by (auto simp: list_all_iff)
  qed
  ultimately show ?thesis
    by (simp add: no_forward_gap_def strict_back_reference_def)
qed

theorem chunk_text_back_reference_witness:
  "chunk_text \<lparr>chunk_size = 10, overlap = 7\<rparr> ''Aa bb! Cc dd! Ee ff!'' ''doc1''
     = Inr [\<lparr>document_id = ''doc1'', chunk_index = 0, ctext = ''Aa bb!'',
               start_char = 0, end_char = 6\<rparr>,
            \<lparr>document_id = ''doc1'', chunk_index = 1, ctext = ''Aa bb! Cc dd!'',
               start_char = 0, end_char = 13\<rparr>,
            \<lparr>document_id = ''doc1'', chunk_index = 2, ctext = ''Cc dd! Ee ff!'',
               start_char = 7, end_char = 20\<rparr>]
   \<and> list_all (\<lambda>s. int (length s) < overlap \<lparr>chunk_size = 10, overlap = 7\<rparr>)
        (split_sentences (normalize_text ''Aa bb! Cc dd! Ee ff!''))
   \<and> strict_back_reference
         [\<lparr>document_id = ''doc1'', chunk_index = 0, ctext = ''Aa bb!'',
               start_char = 0, end_char = 6\<rparr>,
            \<lparr>document_id = ''doc1'', chunk_index = 1, ctext = ''Aa bb! Cc dd!'',
               start_char = 0, end_char = 13\<rparr>,
            \<lparr>document_id = ''doc1'', chunk_index = 2, ctext = ''Cc dd! Ee ff!'',
               start_char = 7, end_char = 20\<rparr>]"
proof -
  have ex: "chunk_text \<lparr>chunk_size = 10, overlap = 7\<rparr> ''Aa bb! Cc dd! Ee ff!'' ''doc1''
     = Inr [\<lparr>document_id = ''doc1'', chunk_index = 0, ctext = ''Aa bb!'',
               start_char = 0, end_char = 6\<rparr>,
            \<lparr>document_id = ''doc1'', chunk_index = 1, ctext = ''Aa bb! Cc dd!'',
               start_char = 0, end_char = 13\<rparr>,
            \<lparr>document_id = ''doc1'', chunk_index = 2, ctext = ''Cc dd! Ee ff!'',
               start_char = 7, end_char = 20\<rparr>]"
    by code_simp
  have h: "list_all (\<lambda>s. int (length s) < overlap \<lparr>chunk_size = 10, overlap = 7\<rparr>)
        (split_sentences (normalize_text ''Aa bb! Cc dd! Ee ff!''))"
    by code_simp
  from chunk_text_back_reference[OF ex] h ex show ?thesis
    by blast
qed

section \<open>Normalized texts and their sentences\<close>

lemma is_end_mark_not_space: "is_end_mark c \<Longrightarrow> \<not> is_space c"
  by (auto simp: is_end_mark_def is_space_def)

lemma is_upper_AZ_not_space: "is_upper_AZ c \<Longrightarrow> \<not> is_space c"
  by (auto simp: is_upper_AZ_def is_space_def Let_def)

lemma hd_collapse_ws: "s \<noteq> [] \<Longrightarrow> \<not> is_space (hd s) \<Longrightarrow> hd (collapse_ws s) = hd s"
  by (cases s) auto

lemma collapse_ws_Nil_iff: "collapse_ws s = [] \<longleftrightarrow> s = []"
  by (cases s) auto

lemma hd_dropWhile_space: "dropWhile is_space cs \<noteq> [] \<Longrightarrow> \<not> is_space (hd (dropWhile is_space cs))"
  using hd_dropWhile by blast

lemma no_space_run_collapse_ws: "no_space_run (collapse_ws s)"
proof (induction s rule: collapse_ws.induct)
  case 1
  show ?case by simp
next
  case (2 c cs)
  show ?case
  proof (cases "is_space c")
    case True
    let ?u = "dropWhile is_space cs"
    have "collapse_ws ?u = [] \<or> \<not> is_space (hd (collapse_ws ?u))"
    proof (cases "?u = []")
      case True
      then have "collapse_ws ?u = []" by (simp only: collapse_ws.simps)
      then show ?thesis by blast
    next
      case False
      then have "\<not> is_space (hd ?u)" by (rule hd_dropWhile_space)
      with False show ?thesis by (simp add: hd_collapse_ws)
    qed
    with True 2 show ?thesis by simp
  next
    case False
    with 2 show ?thesis by simp
  qed
qed

lemma hd_space_after_mark: "s \<noteq> [] \<Longrightarrow> hd (space_after_mark s) = hd s"
  by (induction s rule: space_after_mark.induct) auto

lemma space_after_mark_Nil_iff: "space_after_mark s = [] \<longleftrightarrow> s = []"
  by (induction s rule: space_after_mark.induct) auto

lemma no_space_run_space_after_mark: "no_space_run s \<Longrightarrow> no_space_run (space_after_mark s)"
proof (induction s rule: space_after_mark.induct)
  case (1 a b cs)
  show ?case
  proof (cases "is_end_mark a \<and> is_upper_AZ b")
    case True
    with 1 show ?thesis
      by (auto simp: is_end_mark_not_space is_upper_AZ_not_space)
  next
    case False
    with 1 show ?thesis
      by (auto simp: hd_space_after_mark space_after_mark_Nil_iff)
  qed
qed simp_all

text \<open>Dropping trailing whitespace, as the two reversals of \<open>strip\<close> do it.\<close>

lemma rstrip_Cons:
  "rev (dropWhile P (rev (c # cs))) =
     (if \<forall>x\<in>set cs. P x then (if P c then [] else [c]) else c # rev (dropWhile P (rev cs)))"
  by (simp add: dropWhile_append)

lemma rstrip_Nil_iff: "rev (dropWhile P (rev cs)) = [] \<longleftrightarrow> (\<forall>x\<in>set cs. P x)"
  by (simp add: dropWhile_eq_Nil_conv)

lemma hd_rstrip: "\<not> (\<forall>x\<in>set cs. P x) \<Longrightarrow> hd (rev (dropWhile P (rev cs))) = hd cs"
  by (cases cs) (auto simp: rstrip_Cons simp del: rev.simps)

lemma single_spaced_rstrip:
  "no_space_run u \<Longrightarrow> single_spaced (rev (dropWhile is_space (rev u)))"
proof (induction u)
  case Nil
  show ?case by simp
next
  case (Cons c cs)
  show ?case
  proof (cases "\<forall>x\<in>set cs. is_space x")
    case True
    then show ?thesis by (simp add: rstrip_Cons del: rev.simps)
  next
    case False
    from Cons have ih: "single_spaced (rev (dropWhile is_space (rev cs)))" by simp
    from False have ne: "cs \<noteq> []" by auto
    have "is_space c \<Longrightarrow> c = CHR '' '' \<and> \<not> is_space (hd cs)"
      using Cons.prems ne by simp
    with False ih show ?thesis
      by (auto simp: rstrip_Cons hd_rstrip rstrip_Nil_iff simp del: rev.simps)
  qed
qed

lemma no_space_run_dropWhile: "no_space_run s \<Longrightarrow> no_space_run (dropWhile P s)"
  by (induction s) auto

lemma single_spaced_strip: "no_space_run s \<Longrightarrow> single_spaced (strip s)"
  unfolding strip_def by (intro single_spaced_rstrip no_space_run_dropWhile)

lemma hd_strip: "strip s \<noteq> [] \<Longrightarrow> \<not> is_space (hd (strip s))"
proof -
  assume a: "strip s \<noteq> []"
  let ?u = "dropWhile is_space s"
  from a have n: "\<not> (\<forall>x\<in>set ?u. is_space x)"
    unfolding strip_def rstrip_Nil_iff .
  have "?u \<noteq> []"
  proof
    assume e: "?u = []"
    have "\<forall>x\<in>set ?u. is_space x" unfolding e by simp
    with n show False ..
  qed
  then have "\<not> is_space (hd ?u)" by (rule hd_dropWhile_space)
  with n show ?thesis by (simp add: strip_def hd_rstrip)
qed

lemma normalize_text_spaced:
  "single_spaced (normalize_text tx)
   \<and> (normalize_text tx = [] \<or> \<not> is_space (hd (normalize_text tx)))"
  unfolding normalize_text_def
  using hd_strip single_spaced_strip no_space_run_space_after_mark no_space_run_collapse_ws
  by blast

lemma split_scan_nonempty: "split_scan seen cur rest \<noteq> []"
  by (induction rest arbitrary: seen cur) auto

lemma single_spaced_blank: "single_spaced rest \<Longrightarrow> c \<in> set rest \<Longrightarrow> is_space c \<Longrightarrow> c = CHR '' ''"
  by (induction rest) (auto split: if_splits)

lemma split_scan_join:
  "single_spaced rest \<Longrightarrow> join_sp (split_scan seen cur rest) = rev cur @ rest"
proof (induction rest arbitrary: seen cur)
  case Nil
  show ?case by simp
next
  case (Cons c cs)
  show ?case
  proof (cases "sentence_pattern_at seen c")
    case True
    then have "is_space c" by (simp add: sentence_pattern_at_def)
    with Cons.prems have c: "c = CHR '' ''" and cs: "single_spaced cs" by auto
    from True Cons.IH[OF cs] show ?thesis
      by (simp add: join_sp_Cons split_scan_nonempty c)
  next
    case False
    from Cons.prems have cs: "single_spaced cs" by simp
    from False Cons.IH[OF cs] show ?thesis by simp
  qed
qed

lemma behind_end_mark_hd: "behind_end_mark seen \<Longrightarrow> seen \<noteq> [] \<and> is_end_mark (hd seen)"
  by (cases seen) (auto simp: behind_end_mark_def)

lemma split_scan_trimmed:
  "scan_ok seen cur rest \<Longrightarrow> list_all trimmed (split_scan seen cur rest)"
proof (induction rest arbitrary: seen cur)
  case Nil
  then show ?case
    by (auto simp: scan_ok_def trimmed_def last_rev hd_rev split: if_splits)
next
  case (Cons c cs)
  show ?case
  proof (cases "sentence_pattern_at seen c")
    case True
    then have sp: "is_space c" and em: "seen \<noteq> []" "is_end_mark (hd seen)"
      using behind_end_mark_hd by (auto simp: sentence_pattern_at_def)
    from Cons.prems sp have cur: "cur \<noteq> []"
      by (auto simp: scan_ok_def split: if_splits)
    with Cons.prems have a: "\<not> is_space (last cur)" "hd seen = hd cur"
      by (auto simp: scan_ok_def split: if_splits)
    have t: "trimmed (rev cur)"
      using cur a em by (simp add: trimmed_def hd_rev last_rev is_end_mark_not_space)
    have "scan_ok (c # seen) [] cs"
      using Cons.prems sp by (auto simp: scan_ok_def split: if_splits)
    then have "list_all trimmed (split_scan (c # seen) [] cs)" by (rule Cons.IH)
    with True t show ?thesis by simp
  next
    case False
    have "scan_ok (c # seen) (c # cur) cs"
      using Cons.prems by (auto simp: scan_ok_def split: if_splits)
    then have "list_all trimmed (split_scan (c # seen) (c # cur) cs)" by (rule Cons.IH)
    with False show ?thesis by simp
  qed
qed

lemma strip_trimmed: "trimmed p \<Longrightarrow> strip p = p"
proof -
  assume t: "trimmed p"
  then have d: "dropWhile is_space p = p"
    by (cases p) (auto simp: trimmed_def)
  from t have "dropWhile is_space (rev p) = rev p"
    by (cases p rule: rev_cases) (auto simp: trimmed_def)
  with d show ?thesis by (simp add: strip_def)
qed

lemma sentences_of_trimmed:
  assumes "list_all trimmed ps"
  shows "map strip (filter (\<lambda>s. strip s \<noteq> []) ps) = ps"
  using assms by (induction ps) (auto simp: strip_trimmed trimmed_def)

lemma join_split_sentences:
  assumes "single_spaced t" "t = [] \<or> \<not> is_space (hd t)"
  shows "join_sp (split_sentences t) = t"
proof (cases "t = []")
  case True
  then show ?thesis
    by (simp add: split_sentences_def sentence_pattern_split_def)
next
  case False
  with assms have "scan_ok [] [] t" by (simp add: scan_ok_def)
  then have "list_all trimmed (sentence_pattern_split t)"
    unfolding sentence_pattern_split_def by (rule split_scan_trimmed)
  then have m: "map strip (filter (\<lambda>s. strip s \<noteq> []) (sentence_pattern_split t))
      = sentence_pattern_split t"
    by (rule sentences_of_trimmed)
  have "sentence_pattern_split t \<noteq> []"
    by (simp add: sentence_pattern_split_def split_scan_nonempty)
  with m have "split_sentences t = sentence_pattern_split t"
    by (simp add: split_sentences_def)
  with assms(1) show ?thesis
    by (simp add: sentence_pattern_split_def split_scan_join)
qed

lemma join_sentences_normalize_text:
  "join_sp (split_sentences (normalize_text tx)) = normalize_text tx"
  using normalize_text_spaced[of tx] by (intro join_split_sentences) auto

section \<open>Reconstruction of the normalized text\<close>

lemma split_dot_space_none: "\<not> has_dot_space s \<Longrightarrow> split_dot_space cur s = [rev cur @ s]"
  by (induction cur s rule: split_dot_space.induct) auto

lemma reconstruct_from_snoc:
  "reconstruct_from prev (cs @ [c]) =
     reconstruct_from prev cs @ non_overlapping (last (prev # cs)) c"
  by (induction cs arbitrary: prev) auto

lemma reconstruct_snoc:
  "reconstruct (chunks @ [c]) =
     (if chunks = [] then ctext c else reconstruct chunks @ non_overlapping (last chunks) c)"
  by (cases chunks) (auto simp: reconstruct_def reconstruct_from_snoc)

lemma chunk_loop_extends:
  "chunk_loop self doc ss chunks cur curlen idx start = Inr res \<Longrightarrow> prefix chunks res"
proof (induction ss arbitrary: chunks cur curlen idx start)
  case Nil
  then show ?case by (auto split: sum.splits if_splits)
next
  case (Cons s ss)
  show ?case
  proof (cases "cur \<noteq> [] \<and> curlen + int (length s) > chunk_size self")
    case False
    with Cons.prems
    have "chunk_loop self doc ss chunks (cur @ [s]) (curlen + (int (length s) + 1)) idx start = Inr res"
      by auto
    then show ?thesis by (rule Cons.IH)
  next
    case True
    let ?ov = "get_overlap_text self cur"
    from True Cons.prems obtain c where
      "chunk_loop self doc ss (chunks @ [c])
               (filter (\<lambda>p. strip p \<noteq> []) (split_dot_space [] ?ov) @ [s])
               (int (length ?ov) + (int (length s) + 1))
               (idx + 1)
               (start + int (length (join_sp cur)) - int (length ?ov)) = Inr res"
      by (auto split: sum.splits)
    then have "prefix (chunks @ [c]) res" by (rule Cons.IH)
    then show ?thesis by (rule append_prefixD)
  qed
qed

lemma chunk_loop_first:
  assumes "chunk_loop self doc ss chunks cur curlen idx start = Inr res" "ss \<noteq> [] \<or> cur \<noteq> []"
  shows "\<exists>c rest. res = chunks @ c # rest \<and> start_char c = start"
  using assms
proof (induction ss arbitrary: cur curlen)
  case Nil
  then obtain c where
    c: "DocumentChunk_init doc idx (join_sp cur) start (start + int (length (join_sp cur))) = Inr c"
    and r: "res = chunks @ [c]"
    by (auto split: sum.splits)
  from DocumentChunk_init_Inr[OF c] r show ?case by simp
next
  case (Cons s ss)
  show ?case
  proof (cases "cur \<noteq> [] \<and> curlen + int (length s) > chunk_size self")
    case False
    with Cons.prems(1)
    have "chunk_loop self doc ss chunks (cur @ [s]) (curlen + (int (length s) + 1)) idx start = Inr res"
      by auto
    then show ?thesis by (rule Cons.IH) simp
  next
    case True
    let ?ov = "get_overlap_text self cur"
    from True Cons.prems(1) obtain c where
      c: "DocumentChunk_init doc idx (join_sp cur) start (start + int (length (join_sp cur))) = Inr c"
      and r: "chunk_loop self doc ss (chunks @ [c])
               (filter (\<lambda>p. strip p \<noteq> []) (split_dot_space [] ?ov) @ [s])
               (int (length ?ov) + (int (length s) + 1))
               (idx + 1)
               (start + int (length (join_sp cur)) - int (length ?ov)) = Inr res"
      by (auto split: sum.splits)
    from DocumentChunk_init_Inr[OF c] have sc: "start_char c = start" by simp
    from chunk_loop_extends[OF r] obtain rest where "res = chunks @ c # rest"
      by (auto simp: prefix_def)
    with sc show ?thesis by blast
  qed
qed

lemma strip_join_sp:
  "cur \<noteq> [] \<Longrightarrow> \<forall>p\<in>set cur. strip p \<noteq> [] \<Longrightarrow> strip (join_sp cur) \<noteq> []"
  by (induction cur rule: join_sp.induct) (auto simp: strip_nonempty_iff)

lemma strip_get_overlap_text:
  assumes "get_overlap_text self cur \<noteq> []" "\<forall>p\<in>set cur. strip p \<noteq> []"
  shows "strip (get_overlap_text self cur) \<noteq> []"
proof -
  let ?xs = "overlap_scan (overlap self) (rev cur) [] 0"
  have "suffix ?xs cur"
    using overlap_scan_suffix[of "overlap self" "rev cur" "[]" 0] by simp
  then have "set ?xs \<subseteq> set cur" by (rule set_mono_suffix)
  with assms(2) have "\<forall>p\<in>set ?xs. strip p \<noteq> []" by blast
  moreover from assms(1) have "?xs \<noteq> []"
    by (auto simp: get_overlap_text_def)
  ultimately show ?thesis
    unfolding get_overlap_text_def by (intro strip_join_sp)
qed

lemma reconstruct_flush:
  assumes "chunks = [] \<longrightarrow> carry = 0"
    and "chunks \<noteq> [] \<longrightarrow> int carry = end_char (last chunks) - start"
    and "reconstruct chunks @ drop carry (join_sp cur) = join_sp D"
    and "ctext c = join_sp cur" "start_char c = start"
  shows "reconstruct (chunks @ [c]) = join_sp D"
proof (cases "chunks = []")
  case True
  with assms show ?thesis by (simp add: reconstruct_snoc reconstruct_def)
next
  case False
  with assms(2) have "nat (end_char (last chunks) - start) = carry" by simp
  with False assms(3,4,5) show ?thesis
    by (simp add: reconstruct_snoc non_overlapping_def)
qed

lemma chunk_loop_reconstruct:
  assumes "chunk_loop self doc ss chunks cur curlen idx start = Inr res"
    and "successively (back_ref 1) res"
    and "successively overlap_unsplit res"
    and "\<forall>p\<in>set cur. strip p \<noteq> []"
    and "\<forall>s\<in>set ss. strip s \<noteq> []"
    and "D \<noteq> [] \<or> ss \<noteq> []"
    and "(D = []) = (cur = [])"
    and "suffix (join_sp cur) (join_sp D)"
    and "chunks = [] \<longrightarrow> carry = 0"
    and "chunks \<noteq> [] \<longrightarrow> int carry = end_char (last chunks) - start"
    and "carry \<le> length (join_sp cur)"
    and "reconstruct chunks @ drop carry (join_sp cur) = join_sp D"
  shows "reconstruct res = join_sp (D @ ss)"
  using assms
proof (induction ss arbitrary: chunks cur curlen idx start D carry)
  case Nil
  then have cur: "cur \<noteq> []" by simp
  with Nil.prems(1) obtain c where
    c: "DocumentChunk_init doc idx (join_sp cur) start (start + int (length (join_sp cur))) = Inr c"
    and r: "res = chunks @ [c]"
    by (auto split: sum.splits)
  from DocumentChunk_init_Inr[OF c] have "ctext c = join_sp cur" "start_char c = start"
    by simp_all
  from reconstruct_flush[OF Nil.prems(9,10,12) this] r show ?case by simp
next
  case (Cons s ss)
  show ?case
  proof (cases "cur \<noteq> [] \<and> curlen + int (length s) > chunk_size self")
    case False
    with Cons.prems(1)
    have loop: "chunk_loop self doc ss chunks (cur @ [s]) (curlen + (int (length s) + 1)) idx start
        = Inr res"
      by auto
    have nb: "\<forall>p\<in>set (cur @ [s]). strip p \<noteq> []" "\<forall>s\<in>set ss. strip s \<noteq> []"
      using Cons.prems(4,5) by auto
    have suf: "suffix (join_sp (cur @ [s])) (join_sp (D @ [s]))"
    proof (cases "cur = []")
      case True
      with Cons.prems(7) show ?thesis by simp
    next
      case False
      with Cons.prems(7,8) show ?thesis
        by (auto simp: join_sp_append suffix_def)
    qed
    have cl: "carry \<le> length (join_sp (cur @ [s]))"
      using Cons.prems(11) by (cases "cur = []") (simp_all add: join_sp_append)
    have rec: "reconstruct chunks @ drop carry (join_sp (cur @ [s])) = join_sp (D @ [s])"
    proof (cases "cur = []")
      case True
      with Cons.prems(7,11,12) show ?thesis by simp
    next
      case False
      with Cons.prems(7) have "D \<noteq> []" by simp
      with False Cons.prems(11,12) show ?thesis
        by (simp add: join_sp_append)
    qed
    have "reconstruct res = join_sp ((D @ [s]) @ ss)"
      using loop Cons.prems(2,3) nb _ _ suf Cons.prems(9,10) cl rec
      by (rule Cons.IH) (use Cons.prems(7) in auto)
    then show ?thesis by simp
  next
    case True
    then have cur: "cur \<noteq> []" by simp
    with Cons.prems(7) have D: "D \<noteq> []" by simp
    let ?ov = "get_overlap_text self cur"
    let ?start' = "start + int (length (join_sp cur)) - int (length ?ov)"
    from True Cons.prems(1) obtain c where
      c: "DocumentChunk_init doc idx (join_sp cur) start (start + int (length (join_sp cur))) = Inr c"
      and r: "chunk_loop self doc ss (chunks @ [c])
               (filter (\<lambda>p. strip p \<noteq> []) (split_dot_space [] ?ov) @ [s])
               (int (length ?ov) + (int (length s) + 1))
               (idx + 1) ?start' = Inr res"
      by (auto split: sum.splits)
    from DocumentChunk_init_Inr[OF c]
    have cf: "ctext c = join_sp cur" "start_char c = start"
      and ce: "end_char c = start + int (length (join_sp cur))"
      by simp_all
    \<comment> \<open>the chunk after \<open>c\<close> starts at \<open>?start'\<close>, and strictly before the end of \<open>c\<close>\<close>
    from chunk_loop_first[OF r] obtain c' rest where
      res: "res = (chunks @ [c]) @ c' # rest" and sc': "start_char c' = ?start'"
      by auto
    from Cons.prems(2) have "back_ref 1 c c'"
      unfolding res by (simp add: successively_append_iff)
    with sc' ce have ovne: "?ov \<noteq> []"
      by (auto simp: back_ref_def)
    \<comment> \<open>the carried text is the end of the text of \<open>c\<close>; it has no separator, so
      re-splitting returns it whole\<close>
    have sufov: "suffix ?ov (join_sp D)"
      using get_overlap_text_suffix[of self cur] Cons.prems(8) by (rule suffix_order.trans)
    from get_overlap_text_suffix[of self cur] obtain zs where zs: "join_sp cur = zs @ ?ov"
      by (auto simp: suffix_def)
    have "nat (end_char c - start_char c') = length ?ov"
      using ce sc' by simp
    then have "carried_overlap c c' = drop (length (join_sp cur) - length ?ov) (join_sp cur)"
      by (simp add: carried_overlap_def cf)
    also have "\<dots> = ?ov"
      by (subst (1 2) zs) simp
    finally have co: "carried_overlap c c' = ?ov" .
    from Cons.prems(3) have "overlap_unsplit c c'"
      unfolding res by (simp add: successively_append_iff)
    with co have "\<not> has_dot_space ?ov"
      by (simp add: overlap_unsplit_def)
    then have sp: "split_dot_space [] ?ov = [?ov]"
      by (simp add: split_dot_space_none)
    have nbov: "strip ?ov \<noteq> []"
      using ovne Cons.prems(4) by (rule strip_get_overlap_text)
    from r sp nbov have loop: "chunk_loop self doc ss (chunks @ [c]) [?ov, s]
               (int (length ?ov) + (int (length s) + 1)) (idx + 1) ?start' = Inr res"
      by simp
    have nb: "\<forall>p\<in>set [?ov, s]. strip p \<noteq> []" "\<forall>s\<in>set ss. strip s \<noteq> []"
      using Cons.prems(5) nbov by auto
    have suf: "suffix (join_sp [?ov, s]) (join_sp (D @ [s]))"
      using sufov D by (auto simp: join_sp_append suffix_def)
    have c0: "chunks @ [c] = [] \<longrightarrow> length ?ov = 0" by simp
    have c1: "chunks @ [c] \<noteq> [] \<longrightarrow> int (length ?ov) = end_char (last (chunks @ [c])) - ?start'"
      using ce by simp
    have cl: "length ?ov \<le> length (join_sp [?ov, s])" by simp
    have "reconstruct (chunks @ [c]) = join_sp D"
      using Cons.prems(9,10,12) cf by (rule reconstruct_flush)
    then have rec: "reconstruct (chunks @ [c]) @ drop (length ?ov) (join_sp [?ov, s])
        = join_sp (D @ [s])"
      using D by (simp add: join_sp_append)
    have "reconstruct res = join_sp ((D @ [s]) @ ss)"
      using loop Cons.prems(2,3) nb _ _ suf c0 c1 cl rec
      by (rule Cons.IH) auto
    then show ?thesis by simp
  qed
qed

lemma split_sentences_trimmed:
  assumes "single_spaced t" "t \<noteq> []" "\<not> is_space (hd t)"
  shows "list_all trimmed (split_sentences t)"
proof -
  from assms have "scan_ok [] [] t" by (simp add: scan_ok_def)
  then have tr: "list_all trimmed (sentence_pattern_split t)"
    unfolding sentence_pattern_split_def by (rule split_scan_trimmed)
  then have m: "map strip (filter (\<lambda>s. strip s \<noteq> []) (sentence_pattern_split t))
      = sentence_pattern_split t"
    by (rule sentences_of_trimmed)
  have "sentence_pattern_split t \<noteq> []"
    by (simp add: sentence_pattern_split_def split_scan_nonempty)
  with m have "split_sentences t = sentence_pattern_split t"
    by (simp add: split_sentences_def)
  with tr show ?thesis by simp
qed

lemma chunk_text_reconstruct:
  assumes "chunk_text self tx doc = Inr chunks"
    and "strict_back_reference chunks"
    and "carries_unsplit chunks"
  shows "reconstruct chunks = normalize_text tx"
proof -
  let ?t = "normalize_text tx"
  from assms(1) have ne: "strip tx \<noteq> []"
    and loop: "chunk_loop self doc (split_sentences ?t) [] [] 0 0 0 = Inr chunks"
    by (auto simp: chunk_text_def split: if_splits)
  have t: "?t \<noteq> []" using ne by (rule normalize_text_nonempty)
  with normalize_text_spaced[of tx] have "list_all trimmed (split_sentences ?t)"
    by (intro split_sentences_trimmed) auto
  then have nb: "\<forall>s\<in>set (split_sentences ?t). strip s \<noteq> []"
    by (auto simp: list_all_iff strip_trimmed trimmed_def)
  have j: "join_sp ([] @ split_sentences ?t) = ?t"
    by (simp add: join_sentences_normalize_text)
  have "reconstruct chunks = join_sp ([] @ split_sentences ?t)"
  proof (rule chunk_loop_reconstruct[OF loop, where carry = 0])
    show "successively (back_ref 1) chunks"
      using assms(2) by (simp add: strict_back_reference_def)
    show "successively overlap_unsplit chunks"
      using assms(3) by (simp add: carries_unsplit_def)
    show "\<forall>s\<in>set (split_sentences ?t). strip s \<noteq> []" by (rule nb)
    show "[] \<noteq> [] \<or> split_sentences ?t \<noteq> []"
      using split_sentences_nonempty[OF t] by simp
  qed (simp_all add: reconstruct_def)
  with j show ?thesis by simp
qed

subsection \<open>Texts made of plain sentences\<close>

lemma length_sent [simp]: "length (sent x n) = Suc n"
  by (simp add: sent_def)

lemma length_dsent [simp]: "length (dsent x n) = Suc n"
  by (simp add: dsent_def)

lemma plain_sent:
  "\<not> is_space x \<Longrightarrow> \<not> is_upper_AZ x \<Longrightarrow> x \<noteq> CHR ''.'' \<Longrightarrow> 2 \<le> n \<Longrightarrow> plain (sent x n)"
  by (auto simp: plain_def sent_def list_all_iff is_end_mark_def is_space_def is_upper_AZ_def)

lemma plain_dsent:
  "\<not> is_space x \<Longrightarrow> \<not> is_upper_AZ x \<Longrightarrow> x \<noteq> CHR ''.'' \<Longrightarrow> 2 \<le> n \<Longrightarrow> plain (dsent x n)"
  by (auto simp: plain_def dsent_def list_all_iff is_end_mark_def is_space_def is_upper_AZ_def)

lemma plain_nonempty: "plain s \<Longrightarrow> s \<noteq> []"
  by (auto simp: plain_def)

lemma plain_trimmed: "plain s \<Longrightarrow> trimmed s"
  by (cases s) (auto simp: plain_def trimmed_def is_end_mark_not_space)

lemma single_spaced_word:
  "\<forall>c\<in>set s. \<not> is_space c \<Longrightarrow> single_spaced (s @ t) = single_spaced t"
  by (induction s) auto

lemma join_sp_Nil_iff: "join_sp xs = [] \<longleftrightarrow> (xs = [] \<or> xs = [[]])"
  by (induction xs rule: join_sp.induct) auto

lemma hd_join_sp: "xs \<noteq> [] \<Longrightarrow> hd xs \<noteq> [] \<Longrightarrow> hd (join_sp xs) = hd (hd xs)"
  by (induction xs rule: join_sp.induct) auto

lemma last_join_sp: "xs \<noteq> [] \<Longrightarrow> last xs \<noteq> [] \<Longrightarrow> last (join_sp xs) = last (last xs)"
  by (induction xs rule: join_sp.induct) (auto simp: join_sp_Nil_iff)

lemma single_spaced_join_plain:
  "list_all plain ss \<Longrightarrow> single_spaced (join_sp ss)"
proof (induction ss rule: join_sp.induct)
  case 1
  show ?case by simp
next
  case (2 x)
  then have "\<forall>c\<in>set x. \<not> is_space c" by (auto simp: plain_def list_all_iff)
  from single_spaced_word[OF this, of "[]"] show ?case by simp
next
  case (3 x y ys)
  then have x: "\<forall>c\<in>set x. \<not> is_space c" and y: "plain y"
    and ih: "single_spaced (join_sp (y # ys))"
    by (auto simp: plain_def list_all_iff)
  from y have "hd (join_sp (y # ys)) = hd y" "join_sp (y # ys) \<noteq> []" "\<not> is_space (hd y)"
    using plain_trimmed[OF y] by (auto simp: hd_join_sp join_sp_Nil_iff trimmed_def)
  with ih have "single_spaced (CHR '' '' # join_sp (y # ys))" by simp
  with single_spaced_word[OF x] show ?case by simp
qed

lemma trimmed_join_plain:
  assumes "list_all plain ss" "ss \<noteq> []"
  shows "trimmed (join_sp ss)"
proof -
  from assms have h: "plain (hd ss)" and l: "plain (last ss)"
    by (auto simp: list_all_iff)
  from plain_trimmed[OF h] plain_trimmed[OF l] assms(2) show ?thesis
    by (auto simp: trimmed_def hd_join_sp last_join_sp join_sp_Nil_iff)
qed

lemma single_spaced_no_space_run: "single_spaced t \<Longrightarrow> no_space_run t"
  by (induction t) (auto split: if_splits)

lemma collapse_ws_id: "no_space_run t \<Longrightarrow> collapse_ws t = t"
proof (induction t rule: collapse_ws.induct)
  case 1
  show ?case by simp
next
  case (2 c cs)
  show ?case
  proof (cases "is_space c")
    case True
    with "2.prems" have c: "c = CHR '' ''" and n: "cs = [] \<or> \<not> is_space (hd cs)"
      and r: "no_space_run cs"
      by auto
    from n have d: "dropWhile is_space cs = cs" by (cases cs) auto
    from "2.IH"(1)[OF True] r d have "collapse_ws cs = cs" by simp
    with True c d show ?thesis by simp
  next
    case False
    with 2 show ?thesis by simp
  qed
qed

lemma space_after_mark_id: "list_all (\<lambda>c. \<not> is_upper_AZ c) t \<Longrightarrow> space_after_mark t = t"
  by (induction t rule: space_after_mark.induct) auto

lemma set_join_sp: "set (join_sp ss) \<subseteq> \<Union>(set ` set ss) \<union> {CHR '' ''}"
  by (induction ss rule: join_sp.induct) auto

lemma blank_not_upper: "\<not> is_upper_AZ CHR '' ''"
  by (simp add: is_upper_AZ_def)

lemma normalize_text_plain:
  assumes "list_all plain ss" "ss \<noteq> []"
  shows "normalize_text (join_sp ss) = join_sp ss"
proof -
  have "no_space_run (join_sp ss)"
    using assms(1) by (intro single_spaced_no_space_run single_spaced_join_plain)
  then have 1: "collapse_ws (join_sp ss) = join_sp ss" by (rule collapse_ws_id)
  have "\<forall>c\<in>set (join_sp ss). \<not> is_upper_AZ c"
    using set_join_sp[of ss] assms(1) blank_not_upper
    by (auto simp: plain_def list_all_iff)
  then have 2: "space_after_mark (join_sp ss) = join_sp ss"
    by (intro space_after_mark_id) (simp add: list_all_iff)
  have 3: "strip (join_sp ss) = join_sp ss"
    using assms by (intro strip_trimmed trimmed_join_plain)
  show ?thesis by (simp add: normalize_text_def 1 2 3)
qed

lemma split_scan_word:
  "\<forall>c\<in>set xs. \<not> is_space c \<Longrightarrow>
     split_scan seen cur (xs @ ys) = split_scan (rev xs @ seen) (rev xs @ cur) ys"
  by (induction xs arbitrary: seen cur) (auto simp: sentence_pattern_at_def)

text \<open>
  The blank after a plain sentence is a sentence boundary: the character before it is an
  end mark, and the character three places before it is neither a period nor a capital,
  so no abbreviation guard applies.
\<close>

lemma plain_last3:
  assumes "plain s"
  shows "\<exists>p a b c. s = p @ [a, b, c] \<and> is_end_mark c \<and> a \<noteq> CHR ''.'' \<and> \<not> is_upper_AZ a"
proof -
  from assms have l: "3 \<le> length s" by (simp add: plain_def)
  then obtain q c where 1: "s = q @ [c]" by (cases s rule: rev_cases) auto
  with l obtain r b where 2: "q = r @ [b]" by (cases q rule: rev_cases) auto
  with 1 l obtain p a where 3: "r = p @ [a]" by (cases r rule: rev_cases) auto
  from 1 2 3 have s: "s = p @ [a, b, c]" by simp
  with assms have "is_end_mark c" "a \<noteq> CHR ''.''" "\<not> is_upper_AZ a"
    by (auto simp: plain_def butlast_append)
  with s show ?thesis by blast
qed

lemma pattern_after_plain:
  assumes "plain s"
  shows "sentence_pattern_at (rev s @ seen) CHR '' ''"
proof -
  from plain_last3[OF assms] obtain p a b c where
    s: "s = p @ [a, b, c]" and m: "is_end_mark c" "a \<noteq> CHR ''.''" "\<not> is_upper_AZ a"
    by blast
  have r: "rev s @ seen = c # b # a # (rev p @ seen)"
    by (simp add: s)
  show ?thesis
    unfolding r using m
    by (auto simp: sentence_pattern_at_def behind_end_mark_def behind_title_def
        behind_dotted_def split: list.splits)
qed

lemma split_scan_plain:
  "list_all plain ss \<Longrightarrow> ss \<noteq> [] \<Longrightarrow> split_scan seen [] (join_sp ss) = ss"
proof (induction ss arbitrary: seen rule: join_sp.induct)
  case 1
  then show ?case by simp
next
  case (2 x)
  then have "\<forall>c\<in>set x. \<not> is_space c" by (auto simp: plain_def list_all_iff)
  from split_scan_word[OF this, of seen "[]" "[]"] show ?case by simp
next
  case (3 x y ys)
  then have x: "plain x" and rest: "list_all plain (y # ys)" by simp_all
  from x have ns: "\<forall>c\<in>set x. \<not> is_space c"
    by (auto simp: plain_def list_all_iff)
  from rest have ih: "split_scan (CHR '' '' # rev x @ seen) [] (join_sp (y # ys)) = y # ys"
    by (intro "3.IH") simp_all
  have "split_scan seen [] (join_sp (x # y # ys))
      = split_scan (rev x @ seen) (rev x) (CHR '' '' # join_sp (y # ys))"
    using split_scan_word[OF ns, of seen "[]"] by simp
  also have "\<dots> = x # split_scan (CHR '' '' # rev x @ seen) [] (join_sp (y # ys))"
    using pattern_after_plain[OF x] by simp
  finally show ?case using ih by simp
qed

lemma split_sentences_plain:
  assumes "list_all plain ss" "ss \<noteq> []"
  shows "split_sentences (join_sp ss) = ss"
proof -
  have "sentence_pattern_split (join_sp ss) = ss"
    unfolding sentence_pattern_split_def using assms by (intro split_scan_plain) simp_all
  moreover have "list_all trimmed ss"
    using assms(1) by (auto simp: list_all_iff plain_trimmed)
  ultimately show ?thesis
    using assms(2) by (simp add: split_sentences_def sentences_of_trimmed)
qed

lemma chunk_text_plain:
  assumes "list_all plain ss" "ss \<noteq> []"
  shows "chunk_text self (join_sp ss) doc = chunk_loop self doc ss [] [] 0 0 0"
proof -
  have "trimmed (join_sp ss)" using assms by (rule trimmed_join_plain)
  then have "strip (join_sp ss) \<noteq> []" "join_sp ss \<noteq> []"
    by (auto simp: strip_trimmed trimmed_def)
  then show ?thesis
    by (simp add: chunk_text_def normalize_text_plain[OF assms] split_sentences_plain[OF assms])
qed

lemma no_inner_dot_no_dot_space:
  "list_all (\<lambda>c. c \<noteq> CHR ''.'') (butlast s) \<Longrightarrow> \<not> has_dot_space s"
  by (induction s rule: has_dot_space.induct) auto

lemma has_dot_space_Cons: "has_dot_space ys \<Longrightarrow> has_dot_space (x # ys)"
  by (cases ys) auto

lemma has_dot_space_at: "has_dot_space (xs @ CHR ''.'' # CHR '' '' # ys)"
  by (induction xs) (auto simp: has_dot_space_Cons)

lemma has_dot_space_plain: "plain s \<Longrightarrow> \<not> has_dot_space s"
  by (intro no_inner_dot_no_dot_space) (simp add: plain_def)

lemma split_dot_space_plain: "plain s \<Longrightarrow> split_dot_space [] s = [s]"
  using has_dot_space_plain[of s] by (simp add: split_dot_space_none)

lemma strip_plain: "plain s \<Longrightarrow> strip s = s"
  by (intro strip_trimmed plain_trimmed)

lemma plain_sent_a: "plain (sent CHR ''a'' 248)" and plain_sent_b: "plain (sent CHR ''b'' 248)"
  and plain_sent_c: "plain (sent CHR ''c'' 249)" and plain_sent_d: "plain (sent CHR ''d'' 248)"
  by (simp_all add: plain_sent is_space_def is_upper_AZ_def)

lemma plain_dsent_a: "plain (dsent CHR ''a'' 98)" and plain_dsent_b: "plain (dsent CHR ''b'' 99)"
  by (simp_all add: plain_dsent is_space_def is_upper_AZ_def)

lemma gap_doc_plain:
  "list_all plain [sent CHR ''a'' 248, sent CHR ''b'' 248, sent CHR ''c'' 249, sent CHR ''d'' 248]"
  by (simp add: plain_sent_a plain_sent_b plain_sent_c plain_sent_d)

lemma length_gap_doc: "length gap_doc = 1000"
  by (simp add: gap_doc_def)

lemma chunk_text_gap_doc:
  "chunk_text \<lparr>chunk_size = 512, overlap = 128\<rparr> gap_doc ''doc'' =
     Inr [\<lparr>document_id = ''doc'', chunk_index = 0,
             ctext = join_sp [sent CHR ''a'' 248, sent CHR ''b'' 248],
             start_char = 0, end_char = 499\<rparr>,
          \<lparr>document_id = ''doc'', chunk_index = 1,
             ctext = join_sp [sent CHR ''c'' 249, sent CHR ''d'' 248],
             start_char = 499, end_char = 999\<rparr>]"
  unfolding gap_doc_def
  by (subst chunk_text_plain[OF gap_doc_plain])
     (simp_all add: DocumentChunk_init_def get_overlap_text_def)

lemma carry_doc_plain:
  "list_all plain [dsent CHR ''a'' 98, dsent CHR ''a'' 98, dsent CHR ''a'' 98,
                   dsent CHR ''a'' 98, dsent CHR ''a'' 98, dsent CHR ''a'' 98,
                   dsent CHR ''a'' 98, dsent CHR ''a'' 98, dsent CHR ''a'' 98,
                   dsent CHR ''b'' 99]"
  by (simp add: plain_dsent_a plain_dsent_b)

lemma length_carry_doc: "length carry_doc = 1000"
  by (simp add: carry_doc_def)

lemma chunk_text_carry_doc:
  "chunk_text \<lparr>chunk_size = 512, overlap = 128\<rparr> carry_doc ''doc'' = Inr carry_chunks"
  unfolding carry_doc_def carry_chunks_def
  by (subst chunk_text_plain[OF carry_doc_plain])
     (simp_all add: DocumentChunk_init_def get_overlap_text_def split_dot_space_plain
        strip_plain plain_dsent_a plain_nonempty)

lemma carries_unsplit_carry_chunks: "carries_unsplit carry_chunks"
proof -
  have "carried_overlap (carry_chunks ! 0) (carry_chunks ! 1) = dsent CHR ''a'' 98"
    by (simp add: carry_chunks_def carried_overlap_def)
  moreover have "carried_overlap (carry_chunks ! 1) (carry_chunks ! 2) = dsent CHR ''a'' 98"
    by (simp add: carry_chunks_def carried_overlap_def)
  ultimately show ?thesis
    using has_dot_space_plain[OF plain_dsent_a]
    by (simp add: carries_unsplit_def overlap_unsplit_def carry_chunks_def)
qed

text \<open>
  C1, as stated: for a document of 1000 characters chunked with \<open>chunk_size = 512\<close> and
  \<open>overlap = 128\<close>, the text of the first chunk followed by the non-overlapping portions
  of the others is the normalized text. For \<open>gap_doc\<close> the second chunk carries nothing
  (the last sentence of the first chunk has 249 characters), the chunks are the first two
  and the last two sentences, and their concatenation lacks the blank between the second
  and the third sentence: 999 characters instead of 1000.
\<close>

theorem roundtrip_counterexample:
  "length gap_doc = 1000
   \<and> chunk_text \<lparr>chunk_size = 512, overlap = 128\<rparr> gap_doc ''doc'' =
       Inr [\<lparr>document_id = ''doc'', chunk_index = 0,
               ctext = join_sp [sent CHR ''a'' 248, sent CHR ''b'' 248],
               start_char = 0, end_char = 499\<rparr>,
            \<lparr>document_id = ''doc'', chunk_index = 1,
               ctext = join_sp [sent CHR ''c'' 249, sent CHR ''d'' 248],
               start_char = 499, end_char = 999\<rparr>]
   \<and> length (reconstruct
         [\<lparr>document_id = ''doc'', chunk_index = 0,
               ctext = join_sp [sent CHR ''a'' 248, sent CHR ''b'' 248],
               start_char = 0, end_char = 499\<rparr>,
            \<lparr>document_id = ''doc'', chunk_index = 1,
               ctext = join_sp [sent CHR ''c'' 249, sent CHR ''d'' 248],
               start_char = 499, end_char = 999\<rparr>]) = 999
   \<and> normalize_text gap_doc = gap_doc
   \<and> reconstruct
         [\<lparr>document_id = ''doc'', chunk_index = 0,
               ctext = join_sp [sent CHR ''a'' 248, sent CHR ''b'' 248],
               start_char = 0, end_char = 499\<rparr>,
            \<lparr>document_id = ''doc'', chunk_index = 1,
               ctext = join_sp [sent CHR ''c'' 249, sent CHR ''d'' 248],
               start_char = 499, end_char = 999\<rparr>] \<noteq> normalize_text gap_doc"
proof -
  let ?cs = "[\<lparr>document_id = ''doc'', chunk_index = 0,
               ctext = join_sp [sent CHR ''a'' 248, sent CHR ''b'' 248],
               start_char = 0, end_char = 499\<rparr>,
            \<lparr>document_id = ''doc'', chunk_index = 1,
               ctext = join_sp [sent CHR ''c'' 249, sent CHR ''d'' 248],
               start_char = 499, end_char = 999\<rparr>]"
  have n: "normalize_text gap_doc = gap_doc"
    unfolding gap_doc_def using gap_doc_plain by (intro normalize_text_plain) simp_all
  have l: "length (reconstruct ?cs) = 999"
    by (simp add: reconstruct_def non_overlapping_def)
  have "length (normalize_text gap_doc) = 1000"
    by (simp add: n length_gap_doc)
  with l have "reconstruct ?cs \<noteq> normalize_text gap_doc"
    by auto
  with n l length_gap_doc chunk_text_gap_doc show ?thesis
    by blast
qed

text \<open>
  C1, amended: for a document of 1000 characters chunked with \<open>chunk_size = 512\<close> and
  \<open>overlap = 128\<close>, in whose chunking every chunk after the first starts strictly before
  the end of the chunk before it (an overlap was carried) and no carried overlap (the last
  \<open>end_char - start_char\<close> characters of the text of the chunk before) contains a period
  followed by a blank, the text of the first chunk followed by the non-overlapping
  portions of the others is exactly the normalized text.
\<close>

theorem roundtrip_with_carried_overlap:
  assumes "length tx = 1000"
    and "chunk_text \<lparr>chunk_size = 512, overlap = 128\<rparr> tx doc = Inr chunks"
    and "strict_back_reference chunks"
    and "carries_unsplit chunks"
  shows "reconstruct chunks = normalize_text tx"
  using assms(2,3,4) by (rule chunk_text_reconstruct)

theorem roundtrip_with_carried_overlap_witness:
  "length carry_doc = 1000
   \<and> chunk_text \<lparr>chunk_size = 512, overlap = 128\<rparr> carry_doc ''doc'' = Inr carry_chunks
   \<and> strict_back_reference carry_chunks
   \<and> carries_unsplit carry_chunks
   \<and> has_dot_space (normalize_text carry_doc)
   \<and> length carry_chunks = 3
   \<and> reconstruct carry_chunks = normalize_text carry_doc"
proof -
  have n: "normalize_text carry_doc = carry_doc"
    unfolding carry_doc_def using carry_doc_plain by (intro normalize_text_plain) simp_all
  have d: "has_dot_space (normalize_text carry_doc)"
    unfolding n by (simp add: carry_doc_def dsent_def has_dot_space_at)
  have s: "strict_back_reference carry_chunks"
    by (simp add: strict_back_reference_def carry_chunks_def back_ref_def)
  have l: "length carry_chunks = 3"
    by (simp add: carry_chunks_def)
  from roundtrip_with_carried_overlap[OF length_carry_doc chunk_text_carry_doc s
      carries_unsplit_carry_chunks]
    length_carry_doc chunk_text_carry_doc d s l carries_unsplit_carry_chunks
  show ?thesis by blast
qed
section \<open>Selection of diverse sentences\<close>

lemma first_max_in_set: "first_max key b xs \<in> set (b # xs)"
  by (induction xs arbitrary: b) auto

lemma first_max_greatest: "z \<in> set (b # xs) \<Longrightarrow> key z \<le> key (first_max key b xs)"
proof (induction xs arbitrary: b z)
  case Nil
  then show ?case by simp
next
  case (Cons x xs)
  show ?case
  proof (cases "key x > key b")
    case True
    have "key x \<le> key (first_max key x xs)" by (rule Cons.IH) simp
    moreover have "z \<in> set (x # xs) \<Longrightarrow> key z \<le> key (first_max key x xs)"
      by (rule Cons.IH)
    ultimately show ?thesis using True Cons.prems by auto
  next
    case False
    have "key b \<le> key (first_max key b xs)" by (rule Cons.IH) simp
    moreover have "z \<in> set (b # xs) \<Longrightarrow> key z \<le> key (first_max key b xs)"
      by (rule Cons.IH)
    ultimately show ?thesis using False Cons.prems by auto
  qed
qed

lemma first_max_first:
  "sorted_wrt (<) (b # xs) \<Longrightarrow> j \<in> set (b # xs) \<Longrightarrow> j < first_max key b xs \<Longrightarrow>
     key j < key (first_max key b xs)"
  for b :: nat
proof (induction xs arbitrary: b j)
  case Nil
  then show ?case by simp
next
  case (Cons x xs)
  show ?case
  proof (cases "key x > key b")
    case True
    then have r: "first_max key b (x # xs) = first_max key x xs" by simp
    have s: "sorted_wrt (<) (x # xs)" using Cons.prems(1) by simp
    show ?thesis
    proof (cases "j = b")
      case True
      have "key x \<le> key (first_max key x xs)" by (rule first_max_greatest) simp
      with \<open>key b < key x\<close> True show ?thesis unfolding r by simp
    next
      case False
      with Cons.prems(2) have "j \<in> set (x # xs)" by simp
      from Cons.IH[OF s this] Cons.prems(3) show ?thesis unfolding r by simp
    qed
  next
    case False
    then have r: "first_max key b (x # xs) = first_max key b xs" by simp
    have s: "sorted_wrt (<) (b # xs)" using Cons.prems(1) by auto
    show ?thesis
    proof (cases "j = x")
      case True
      with Cons.prems(3) have xr: "x < first_max key b xs" unfolding r by simp
      from Cons.prems(1) have "b < x" by simp
      with xr have "b < first_max key b xs" by simp
      from Cons.IH[OF s _ this] have "key b < key (first_max key b xs)" by simp
      with False True show ?thesis unfolding r by simp
    next
      case False
      with Cons.prems(2) have "j \<in> set (b # xs)" by auto
      from Cons.IH[OF s this] Cons.prems(3) show ?thesis unfolding r by simp
    qed
  qed
qed

lemma argmax_first:
  assumes "scores \<noteq> []"
  shows "\<exists>b. argmax scores = Inr b \<and> b < length scores
           \<and> (\<forall>j<length scores. scores ! j \<le> scores ! b)
           \<and> (\<forall>j<b. scores ! j < scores ! b)"
proof -
  let ?n = "length scores"
  let ?b = "first_max (\<lambda>i. scores ! i) 0 [1..<?n]"
  from assms have n: "0 # [1..<?n] = [0..<?n]"
    by (simp add: upt_rec)
  have sw: "sorted_wrt (<) (0 # [1..<?n])"
    unfolding n by (simp add: sorted_wrt_upt)
  have "?b \<in> set (0 # [1..<?n])" by (rule first_max_in_set)
  then have b: "?b < ?n" unfolding n by simp
  have g: "scores ! j \<le> scores ! ?b" if "j < ?n" for j
  proof -
    from that have "j \<in> set (0 # [1..<?n])" unfolding n by simp
    then show ?thesis by (rule first_max_greatest[where key = "\<lambda>i. scores ! i"])
  qed
  have f: "scores ! j < scores ! ?b" if "j < ?b" for j
  proof -
    from that b have "j \<in> set (0 # [1..<?n])" unfolding n by simp
    from first_max_first[where key = "\<lambda>i. scores ! i", OF sw this that] show ?thesis .
  qed
  from assms b g f show ?thesis
    by (simp add: argmax_def)
qed

lemma map_err_total:
  "\<forall>x\<in>set xs. \<exists>y. f x = Inr y \<Longrightarrow> \<exists>ys. map_err f xs = Inr ys \<and> length ys = length xs"
proof (induction xs)
  case Nil
  show ?case by simp
next
  case (Cons x xs)
  then obtain y ys where "f x = Inr y" "map_err f xs = Inr ys" "length ys = length xs"
    by auto
  then show ?case by simp
qed

lemma map_err_set:
  "map_err f xs = Inr ys \<Longrightarrow> y \<in> set ys \<Longrightarrow> \<exists>x\<in>set xs. f x = Inr y"
proof (induction xs arbitrary: ys)
  case Nil
  then show ?case by simp
next
  case (Cons x xs)
  then show ?case by (auto split: sum.splits)
qed

lemma rows_ok_nth:
  "rows_ok embeddings \<Longrightarrow> i < length embeddings \<Longrightarrow>
     embeddings ! i \<noteq> [] \<and> length (embeddings ! i) = length (hd embeddings)"
  by (simp add: rows_ok_def list_all_length)

lemma max_similarity_total:
  assumes "rows_ok embeddings" "selected \<noteq> []"
    and "\<forall>i\<in>set selected. i < length embeddings" "idx < length embeddings"
  shows "\<exists>m. max_similarity embeddings selected idx = Inr m"
proof -
  from assms(3) obtain rows where
    rows: "map_err (py_index embeddings) selected = Inr rows" "length rows = length selected"
    using map_err_total[of selected "py_index embeddings"] by (auto simp: py_index_def)
  have v: "py_index embeddings idx = Inr (embeddings ! idx)"
    using assms(4) by (simp add: py_index_def)
  have "\<exists>r. cosine_similarity (embeddings ! idx) e = Inr r" if "e \<in> set rows" for e
  proof -
    from map_err_set[OF rows(1) that] obtain i where
      "i \<in> set selected" "py_index embeddings i = Inr e"
      by blast
    then have "i < length embeddings" "e = embeddings ! i"
      by (auto simp: py_index_def split: if_splits)
    with rows_ok_nth[OF assms(1)] assms(4) show ?thesis
      by (simp add: cosine_similarity_def)
  qed
  then obtain sims where
    sims: "map_err (cosine_similarity (embeddings ! idx)) rows = Inr sims"
      "length sims = length rows"
    using map_err_total[of rows "cosine_similarity (embeddings ! idx)"] by blast
  with rows(2) assms(2) obtain s ss where "sims = s # ss"
    by (cases sims) auto
  with rows(1) v sims(1) show ?thesis
    by (simp add: max_similarity_def)
qed

lemma scan_candidates_total:
  assumes "rows_ok embeddings" "selected \<noteq> []"
    and "\<forall>i\<in>set selected. i < length embeddings"
    and "\<forall>i\<in>set iter. i < length embeddings \<and> i < length scores"
  shows "\<exists>r. scan_candidates self scores embeddings selected iter best_score best_idx = Inr r
           \<and> (r = best_idx \<or> (\<exists>b\<in>set iter. r = Some b))"
  using assms(4)
proof (induction iter arbitrary: best_score best_idx)
  case Nil
  show ?case by simp
next
  case (Cons idx rest)
  from Cons.prems have i: "idx < length embeddings" "idx < length scores"
    and rest: "\<forall>i\<in>set rest. i < length embeddings \<and> i < length scores"
    by simp_all
  from max_similarity_total[OF assms(1,2,3) i(1)] obtain m where
    m: "max_similarity embeddings selected idx = Inr m" by blast
  have rel: "py_index scores idx = Inr (scores ! idx)"
    using i(2) by (simp add: py_index_def)
  from Cons.IH[OF rest, of best_score best_idx] Cons.IH[OF rest, of "scores ! idx - 0.3 * m" "Some idx"]
  show ?case
    by (auto simp: m rel)
qed

lemma select_step_invariant:
  assumes "distinct (selected @ remaining)" "b \<in> set remaining"
    and "\<forall>i\<in>set (selected @ remaining). i < n"
  shows "distinct ((selected @ [b]) @ remove1 b remaining)"
    and "\<forall>i\<in>set ((selected @ [b]) @ remove1 b remaining). i < n"
    and "length (remove1 b remaining) < length remaining"
    and "py_remove b remaining = Inr (remove1 b remaining)"
proof -
  from assms(1,2) show "distinct ((selected @ [b]) @ remove1 b remaining)"
    by (auto simp: distinct_remove1 dest: notin_set_remove1)
  from assms(2,3) show "\<forall>i\<in>set ((selected @ [b]) @ remove1 b remaining). i < n"
    by (auto dest: notin_set_remove1)
  from assms(2) show "length (remove1 b remaining) < length remaining"
    by (simp add: length_remove1) (metis diff_Suc_less length_pos_if_in_set)
  from assms(2) show "py_remove b remaining = Inr (remove1 b remaining)"
    by (simp add: py_remove_def)
qed

lemma select_loop_total:
  assumes "rows_ok embeddings" "length embeddings = length scores"
    and "selected \<noteq> []" "distinct (selected @ remaining)"
    and "\<forall>i\<in>set (selected @ remaining). i < length scores"
  shows "\<exists>sel. select_loop self scores embeddings max_count selected remaining = Inr sel
           \<and> distinct sel \<and> prefix selected sel
           \<and> int (length sel) \<le> max (int (length selected)) max_count"
  using assms(3,4,5)
proof (induction "length remaining" arbitrary: selected remaining rule: less_induct)
  case less
  show ?case
  proof (cases "int (length selected) < max_count \<and> remaining \<noteq> []")
    case False
    then have "select_loop self scores embeddings max_count selected remaining = Inr selected"
      by (subst select_loop.simps) simp
    with less.prems(2) show ?thesis by simp
  next
    case True
    have step: "\<exists>sel. select_loop self scores embeddings max_count (selected @ [b])
                    (remove1 b remaining) = Inr sel
           \<and> distinct sel \<and> prefix selected sel
           \<and> int (length sel) \<le> max (int (length selected)) max_count"
      if b: "b \<in> set remaining" for b
    proof -
      note inv = select_step_invariant[OF less.prems(2) b less.prems(3)]
      have "\<exists>sel. select_loop self scores embeddings max_count (selected @ [b])
                    (remove1 b remaining) = Inr sel
           \<and> distinct sel \<and> prefix (selected @ [b]) sel
           \<and> int (length sel) \<le> max (int (length (selected @ [b]))) max_count"
        using inv(3) _ inv(1,2) by (rule less.hyps) simp
      then obtain sel where
        sel: "select_loop self scores embeddings max_count (selected @ [b])
                    (remove1 b remaining) = Inr sel" "distinct sel"
          "prefix (selected @ [b]) sel"
          "int (length sel) \<le> max (int (length (selected @ [b]))) max_count"
        by blast
      from sel(3) have "prefix selected sel" by (rule append_prefixD)
      moreover from sel(4) True have "int (length sel) \<le> max (int (length selected)) max_count"
        by simp
      ultimately show ?thesis using sel(1,2) by blast
    qed
    have sel_ok: "\<forall>i\<in>set selected. i < length embeddings"
      and rem_ok: "\<forall>i\<in>set remaining. i < length embeddings \<and> i < length scores"
      using less.prems(3) assms(2) by simp_all
    from scan_candidates_total[OF assms(1) less.prems(1) sel_ok rem_ok, of self "-1" None]
    obtain r where
      r: "scan_candidates self scores embeddings selected remaining (-1) None = Inr r"
      and rc: "r = None \<or> (\<exists>b\<in>set remaining. r = Some b)"
      by blast
    from rc show ?thesis
    proof
      assume n: "r = None"
      from True obtain x xs where rem: "remaining = x # xs" by (cases remaining) auto
      let ?b = "first_max (\<lambda>i. scores ! i) x xs"
      have b: "?b \<in> set remaining" unfolding rem by (rule first_max_in_set)
      note inv = select_step_invariant[OF less.prems(2) b less.prems(3)]
      have "select_loop self scores embeddings max_count selected remaining
          = select_loop self scores embeddings max_count (selected @ [?b]) (remove1 ?b remaining)"
        using True r n inv(4) by (subst select_loop.simps) (simp add: rem)
      with step[OF b] show ?thesis by simp
    next
      assume "\<exists>b\<in>set remaining. r = Some b"
      then obtain b where b: "b \<in> set remaining" and s: "r = Some b" by blast
      note inv = select_step_invariant[OF less.prems(2) b less.prems(3)]
      have "select_loop self scores embeddings max_count selected remaining
          = select_loop self scores embeddings max_count (selected @ [b]) (remove1 b remaining)"
        using True r s inv(4) by (subst select_loop.simps) simp
      with step[OF b] show ?thesis by simp
    qed
  qed
qed

lemma select_diverse_sentences_total:
  assumes "scores \<noteq> []" "length embeddings = length scores" "rows_ok embeddings"
  shows "\<exists>sel. select_diverse_sentences self scores embeddings max_count = Inr sel
           \<and> int (length sel) \<le> max 1 max_count \<and> distinct sel \<and> sel \<noteq> []
           \<and> hd sel < length scores
           \<and> (\<forall>j<length scores. scores ! j \<le> scores ! hd sel)
           \<and> (\<forall>j<hd sel. scores ! j < scores ! hd sel)"
proof -
  from argmax_first[OF assms(1)] obtain b where
    b: "argmax scores = Inr b" "b < length scores"
      "\<forall>j<length scores. scores ! j \<le> scores ! b" "\<forall>j<b. scores ! j < scores ! b"
    by blast
  let ?rem = "remove1 b [0..<length scores]"
  have rm: "py_remove b [0..<length scores] = Inr ?rem"
    using b(2) by (simp add: py_remove_def)
  have d: "distinct ([b] @ ?rem)"
    by (simp add: distinct_remove1)
  have bd: "\<forall>i\<in>set ([b] @ ?rem). i < length scores"
    using b(2) by (auto dest: notin_set_remove1)
  from select_loop_total[OF assms(3,2) _ d bd, of self max_count] obtain sel where
    sel: "select_loop self scores embeddings max_count [b] ?rem = Inr sel" "distinct sel"
      "prefix [b] sel" "int (length sel) \<le> max (int (length [b])) max_count"
    by auto
  from sel(3) have h: "sel \<noteq> []" "hd sel = b" by (auto simp: prefix_def)
  from b rm sel h show ?thesis
    by (simp add: select_diverse_sentences_def)
qed

lemmas select_eval =
  select_diverse_sentences_def select_loop.simps argmax_def upt_rec py_remove_def
  max_similarity_def py_index_def cosine_similarity_def dot_def row_norm_def

text \<open>
  C4, as stated: for every \<open>max_count \<ge> 0\<close> at most \<open>max_count\<close> indices are returned.
  The index of the best score is selected before the loop tests \<open>max_count\<close>, so with
  \<open>max_count = 0\<close> one index is returned.
\<close>

theorem select_max_count_counterexample:
  "[1 / 2] \<noteq> ([] :: real list)
   \<and> length [[1 :: real]] = length [1 / 2 :: real]
   \<and> rows_ok [[1]]
   \<and> (0 :: int) \<le> 0
   \<and> select_diverse_sentences \<lparr>max_sentences = 3, diversity_threshold = 0.8\<rparr>
         [1 / 2] [[1]] 0 = Inr [0]
   \<and> \<not> int (length [0 :: nat]) \<le> 0"
  by (simp add: select_eval rows_ok_def)

text \<open>
  C4, amended: for every non-empty array of scores, every array of as many embeddings and
  every \<open>max_count \<ge> 0\<close>, the selection returns at most \<open>max (1, max_count)\<close> indices,
  all distinct, and the first one is the lowest index with the greatest score.
\<close>

theorem select_diverse_sentences_bounds:
  assumes "scores \<noteq> []" "length embeddings = length scores" "rows_ok embeddings"
    and "0 \<le> max_count"
  shows "\<exists>sel. select_diverse_sentences self scores embeddings max_count = Inr sel
           \<and> int (length sel) \<le> max 1 max_count \<and> distinct sel \<and> sel \<noteq> []
           \<and> hd sel < length scores
           \<and> (\<forall>j<length scores. scores ! j \<le> scores ! hd sel)
           \<and> (\<forall>j<hd sel. scores ! j < scores ! hd sel)"
  using assms(1,2,3) by (rule select_diverse_sentences_total)

theorem select_diverse_sentences_bounds_witness:
  "[1 / 5, 9 / 10, 9 / 10] \<noteq> ([] :: real list)
   \<and> length [[1, 0], [0, 1], [0, 1 :: real]] = length [1 / 5, 9 / 10, 9 / 10 :: real]
   \<and> rows_ok [[1, 0], [0, 1], [0, 1]]
   \<and> (0 :: int) \<le> 2
   \<and> select_diverse_sentences \<lparr>max_sentences = 3, diversity_threshold = 0.8\<rparr>
         [1 / 5, 9 / 10, 9 / 10] [[1, 0], [0, 1], [0, 1]] 2 = Inr [1, 0]
   \<and> (\<exists>sel. select_diverse_sentences \<lparr>max_sentences = 3, diversity_threshold = 0.8\<rparr>
         [1 / 5, 9 / 10, 9 / 10] [[1, 0], [0, 1], [0, 1]] 2 = Inr sel
         \<and> int (length sel) \<le> max 1 2 \<and> distinct sel \<and> hd sel = 1)"
proof -
  have h1: "[1 / 5, 9 / 10, 9 / 10] \<noteq> ([] :: real list)" by simp
  have h2: "length [[1, 0], [0, 1], [0, 1 :: real]] = length [1 / 5, 9 / 10, 9 / 10 :: real]"
    by simp
  have h3: "rows_ok [[1, 0], [0, 1], [0, 1]]" by (simp add: rows_ok_def)
  have h4: "(0 :: int) \<le> 2" by simp
  have ev: "select_diverse_sentences \<lparr>max_sentences = 3, diversity_threshold = 0.8\<rparr>
         [1 / 5, 9 / 10, 9 / 10] [[1, 0], [0, 1], [0, 1]] 2 = Inr [1, 0]"
    by (simp add: select_eval)
  from select_diverse_sentences_bounds[OF h1 h2 h3 h4,
      of "\<lparr>max_sentences = 3, diversity_threshold = 0.8\<rparr>"] ev h3
  show ?thesis by auto
qed

text \<open>
  C5. In a round with a candidate that is not skipped, the best such candidate by
  \<open>relevance - 0.3 * max_similarity\<close> is to be appended. The round starts with
  \<open>best_score = -1\<close>, so a candidate whose combined score is at most \<open>-1\<close> is never
  taken; the round then falls to the branch for "no diverse sentences left" and appends
  the remaining index of greatest relevance, skipped or not. With the query \<open>(1, 0)\<close>
  and the unit embeddings below, index 0 is selected first; in the round that follows,
  index 1 is not skipped (similarity \<open>204/325 \<le> 0.8\<close>), its combined score
  \<open>-12/13 - 0.3 * 204/325\<close> is below \<open>-1\<close>, index 2 is skipped (similarity
  \<open>117/125 > 0.8\<close>), and index 2 is appended.
\<close>

theorem select_appends_skipped_candidate:
  "map_err (\<lambda>e. cosine_similarity e [1, 0])
       [[- 7 / 25, 24 / 25], [- 12 / 13, 5 / 13], [- 3 / 5, 4 / 5]]
     = Inr [- 7 / 25, - 12 / 13, - 3 / 5]
   \<and> max_similarity [[- 7 / 25, 24 / 25], [- 12 / 13, 5 / 13], [- 3 / 5, 4 / 5]] [0] 1
       = Inr (204 / 325)
   \<and> \<not> (204 / 325 :: real) > diversity_threshold \<lparr>max_sentences = 3, diversity_threshold = 0.8\<rparr>
   \<and> (- 12 / 13 - 0.3 * (204 / 325) :: real) < - 1
   \<and> max_similarity [[- 7 / 25, 24 / 25], [- 12 / 13, 5 / 13], [- 3 / 5, 4 / 5]] [0] 2
       = Inr (117 / 125)
   \<and> (117 / 125 :: real) > diversity_threshold \<lparr>max_sentences = 3, diversity_threshold = 0.8\<rparr>
   \<and> scan_candidates \<lparr>max_sentences = 3, diversity_threshold = 0.8\<rparr>
         [- 7 / 25, - 12 / 13, - 3 / 5]
         [[- 7 / 25, 24 / 25], [- 12 / 13, 5 / 13], [- 3 / 5, 4 / 5]] [0] [1, 2] (- 1) None
       = Inr None
   \<and> select_diverse_sentences \<lparr>max_sentences = 3, diversity_threshold = 0.8\<rparr>
         [- 7 / 25, - 12 / 13, - 3 / 5]
         [[- 7 / 25, 24 / 25], [- 12 / 13, 5 / 13], [- 3 / 5, 4 / 5]] 2
       = Inr [0, 2]"
  by (simp add: select_eval)

section \<open>Summaries without candidates\<close>

lemma chunk_candidates_short:
  assumes "list_all (\<lambda>s. length (strip s) \<le> 20) (extract_sentences tx)"
  shows "chunk_candidates ci tx = []"
proof -
  have "filter (\<lambda>(si, sentence). length (strip sentence) > 20)
          (enumerate 0 (extract_sentences tx)) = []"
    using assms
    by (auto simp: filter_empty_conv list_all_iff in_set_enumerate_eq dest: nth_mem)
       (meson leD nth_mem)
  then show ?thesis by (simp add: chunk_candidates_def)
qed

lemma sentences_with_source_short:
  assumes "list_all (\<lambda>tx. list_all (\<lambda>s. length (strip s) \<le> 20) (extract_sentences tx)) texts"
  shows "sentences_with_source texts = []"
proof -
  have "chunk_candidates ci tx = []" if "tx \<in> set texts" for ci tx
    using assms that by (intro chunk_candidates_short) (simp add: list_all_iff)
  then show ?thesis
    by (auto simp: sentences_with_source_def in_set_enumerate_eq)
qed

text \<open>
  C10. When \<open>retrieved_texts\<close> is not empty but no extracted sentence has more than 20
  characters after stripping, \<open>summarize\<close> returns the string
  \<open>No suitable sentences found for summarization.\<close>, whatever the provider would do: no
  call to it is made and nothing is raised. The string differs from the one returned for
  an empty \<open>retrieved_texts\<close>.
\<close>

theorem summarize_no_suitable_sentences:
  assumes "retrieved_texts \<noteq> []"
    and "list_all (\<lambda>tx. list_all (\<lambda>s. length (strip s) \<le> 20) (extract_sentences tx))
           retrieved_texts"
  shows "summarize self encode query retrieved_texts override
           = ([], Inr ''No suitable sentences found for summarization.'')
    \<and> summarize self encode query [] override = ([], Inr ''No relevant content found.'')
    \<and> ''No suitable sentences found for summarization.'' \<noteq> ''No relevant content found.''"
  using assms(1) sentences_with_source_short[OF assms(2)]
  by (simp add: summarize_def Let_def)

theorem summarize_no_suitable_sentences_witness:
  "[''Tiny. Small.''] \<noteq> []
   \<and> list_all (\<lambda>tx. list_all (\<lambda>s. length (strip s) \<le> 20) (extract_sentences tx))
        [''Tiny. Small.'']
   \<and> summarize \<lparr>max_sentences = 3, diversity_threshold = 0.8\<rparr> (\<lambda>ts. Inl RuntimeError)
        ''query'' [''Tiny. Small.''] None
       = ([], Inr ''No suitable sentences found for summarization.'')"
proof -
  have h: "list_all (\<lambda>tx. list_all (\<lambda>s. length (strip s) \<le> 20) (extract_sentences tx))
        [''Tiny. Small.'']"
    by code_simp
  have n: "[''Tiny. Small.''] \<noteq> []" by simp
  from summarize_no_suitable_sentences[OF n h] h show ?thesis by simp
qed

section \<open>Assembly of the summary\<close>

lemma map_err_in_range:
  "map_err (py_index xs) is = Inr ys \<Longrightarrow> list_all (\<lambda>i. i < length xs) is"
proof (induction "is" arbitrary: ys)
  case Nil
  show ?case by simp
next
  case (Cons i "is")
  then show ?case by (auto simp: py_index_def split: sum.splits if_splits)
qed

lemma assemble_sorted:
  assumes "assemble cands selected = Inr summary"
  shows "list_all (\<lambda>i. i < length cands) selected
    \<and> summary = join_sp (map (\<lambda>i. cand_text (cands ! i))
                            (sort_key (source_key cands) selected))"
  using assms map_err_in_range[of cands selected]
  by (auto simp: assemble_def split: sum.splits)

text \<open>
  C8. A call of \<open>summarize\<close> that reaches the assembly (there are candidates, both
  embedding calls succeed, and scoring and selection return) gives the texts of the
  selected candidates, joined by single blanks, in an order that is a rearrangement of
  the selection sorted ascending by \<open>(chunk_idx, sent_idx)\<close>: the reading order, whatever
  the order of selection was.
\<close>

theorem summarize_reading_order:
  assumes "retrieved_texts \<noteq> []"
    and "sentences_with_source retrieved_texts \<noteq> []"
    and "embed_text encode query = Inr query_embedding"
    and "embed_batch encode (map cand_text (sentences_with_source retrieved_texts))
           = Inr sentence_embeddings"
    and "summarize self encode query retrieved_texts override = (calls, Inr summary)"
  shows "\<exists>scores max_count selected order.
           select_diverse_sentences self scores sentence_embeddings max_count = Inr selected
           \<and> mset order = mset selected
           \<and> sorted (map (source_key (sentences_with_source retrieved_texts)) order)
           \<and> list_all (\<lambda>i. i < length (sentences_with_source retrieved_texts)) order
           \<and> summary = join_sp (map (\<lambda>i. cand_text (sentences_with_source retrieved_texts ! i))
                                  order)"
proof -
  let ?cands = "sentences_with_source retrieved_texts"
  let ?mc = "case override of None \<Rightarrow> max_sentences self
             | Some n \<Rightarrow> if n = 0 then max_sentences self else n"
  from assms obtain scores selected where
    sc: "map_err (\<lambda>e. cosine_similarity e query_embedding) sentence_embeddings = Inr scores"
    and sel: "select_diverse_sentences self scores sentence_embeddings ?mc = Inr selected"
    and asm: "assemble ?cands selected = Inr summary"
    by (auto simp: summarize_def Let_def split: sum.splits)
  let ?order = "sort_key (source_key ?cands) selected"
  from assemble_sorted[OF asm] have
    r: "list_all (\<lambda>i. i < length ?cands) selected"
    and s: "summary = join_sp (map (\<lambda>i. cand_text (?cands ! i)) ?order)"
    by simp_all
  have "mset ?order = mset selected" by simp
  moreover have "sorted (map (source_key ?cands) ?order)" by (rule sorted_sort_key)
  moreover have "list_all (\<lambda>i. i < length ?cands) ?order"
    using r by (simp add: list_all_iff)
  ultimately show ?thesis using sel s by blast
qed

theorem summarize_reading_order_witness:
  "[''Alpha beta gamma delta one. Alpha beta gamma delta two.''] \<noteq> []
   \<and> sentences_with_source [''Alpha beta gamma delta one. Alpha beta gamma delta two.'']
       = [\<lparr>cand_text = ''Alpha beta gamma delta one.'', chunk_idx = 0, sent_idx = 0\<rparr>,
          \<lparr>cand_text = ''Alpha beta gamma delta two.'', chunk_idx = 0, sent_idx = 1\<rparr>]
   \<and> embed_text demo_encode ''query'' = Inr [1, 0]
   \<and> embed_batch demo_encode
         (map cand_text
            (sentences_with_source [''Alpha beta gamma delta one. Alpha beta gamma delta two.'']))
       = Inr [[0, 1], [1, 0]]
   \<and> select_diverse_sentences \<lparr>max_sentences = 3, diversity_threshold = 0.8\<rparr>
         [0, 1] [[0, 1], [1, 0]] 3 = Inr [1, 0]
   \<and> summarize \<lparr>max_sentences = 3, diversity_threshold = 0.8\<rparr> demo_encode ''query''
         [''Alpha beta gamma delta one. Alpha beta gamma delta two.''] None
       = ([EmbedText ''query'',
           EmbedBatch [''Alpha beta gamma delta one.'', ''Alpha beta gamma delta two.'']],
          Inr ''Alpha beta gamma delta one. Alpha beta gamma delta two.'')"
proof -
  let ?texts = "[''Alpha beta gamma delta one. Alpha beta gamma delta two.'']"
  let ?self = "\<lparr>max_sentences = 3, diversity_threshold = 0.8\<rparr>"
  have c: "sentences_with_source ?texts
       = [\<lparr>cand_text = ''Alpha beta gamma delta one.'', chunk_idx = 0, sent_idx = 0\<rparr>,
          \<lparr>cand_text = ''Alpha beta gamma delta two.'', chunk_idx = 0, sent_idx = 1\<rparr>]"
    by code_simp
  have s: "strip ''query'' \<noteq> []" "strip ''Alpha beta gamma delta one.'' \<noteq> []"
    "strip ''Alpha beta gamma delta two.'' \<noteq> []"
    by code_simp+
  have q: "embed_text demo_encode ''query'' = Inr [1, 0]"
    by (simp add: embed_text_def embed_batch_def demo_encode_def py_index_def s)
  have b: "embed_batch demo_encode (map cand_text (sentences_with_source ?texts))
       = Inr [[0, 1], [1, 0]]"
    by (simp add: c embed_batch_def demo_encode_def s)
  have sel: "select_diverse_sentences ?self [0, 1] [[0, 1], [1, 0]] 3 = Inr [1, 0]"
    by (simp add: select_eval)
  have r: "summarize ?self demo_encode ''query'' ?texts None
       = ([EmbedText ''query'',
           EmbedBatch [''Alpha beta gamma delta one.'', ''Alpha beta gamma delta two.'']],
          Inr ''Alpha beta gamma delta one. Alpha beta gamma delta two.'')"
    using b
    by (simp add: summarize_def Let_def c q select_eval assemble_def source_key_def)
  have n: "?texts \<noteq> []" by simp
  have ne: "sentences_with_source ?texts \<noteq> []" by (simp add: c)
  from summarize_reading_order[OF n ne q b r] c q b sel r show ?thesis
    by blast
qed

end
